theory Spec2Isabelle
  imports Complex_Main "HOL-Library.AList"
begin

section \<open>JavaScript values\<close>

text \<open>
  The library works on what \<^verbatim>\<open>JSON.parse\<close> returns and on the plain objects it builds
  itself. A value is \<^verbatim>\<open>undefined\<close>, \<^verbatim>\<open>null\<close>, a boolean, a number, a string, an
  array or a plain object. An object is the list of its own properties in the order of
  their insertion. \<open>JBuiltin k\<close> is the value a plain object inherits under the name
  \<open>k\<close> from \<^verbatim>\<open>Object.prototype\<close> (a native function, or \<^verbatim>\<open>Object.prototype\<close> itself
  for \<^verbatim>\<open>__proto__\<close>): reading \<^verbatim>\<open>({})['constructor']\<close> does not give \<^verbatim>\<open>undefined\<close>.
  Numbers are the integers (identifiers, counts, flags), in the range where
  JavaScript holds and prints an integer exactly; fractions, NaN and the infinities are
  not modelled.
\<close>

datatype jsval =
    JUndefined
  | JNull
  | JBool bool
  | JNum int
  | JStr string
  | JArr "jsval list"
  | JObj "(string \<times> jsval) list"
  | JBuiltin string

type_synonym obj = "(string \<times> jsval) list"

text \<open>What the code can throw: a \<^verbatim>\<open>TypeError\<close> of the runtime, or an \<^verbatim>\<open>Error\<close> with a message.\<close>

datatype error = TypeError | Error string

fun truthy :: "jsval \<Rightarrow> bool" where
  "truthy JUndefined = False"
| "truthy JNull = False"
| "truthy (JBool b) = b"
| "truthy (JNum n) = (n \<noteq> 0)"
| "truthy (JStr s) = (s \<noteq> [])"
| "truthy (JArr xs) = True"
| "truthy (JObj ps) = True"
| "truthy (JBuiltin k) = True"

subsection \<open>Conversion to a property key\<close>

fun string_of_nat :: "nat \<Rightarrow> string" where
  "string_of_nat n =
     (if n < 10 then [''0123456789'' ! n]
      else string_of_nat (n div 10) @ [''0123456789'' ! (n mod 10)])"

declare string_of_nat.simps [simp del]

definition string_of_int :: "int \<Rightarrow> string" where
  "string_of_int i = (if i < 0 then CHR ''-'' # string_of_nat (nat (- i)) else string_of_nat (nat i))"

fun join_comma :: "string list \<Rightarrow> string" where
  "join_comma [] = []"
| "join_comma [s] = s"
| "join_comma (s # t # ts) = s @ '','' @ join_comma (t # ts)"

text \<open>
  \<^verbatim>\<open>ToString\<close>, which turns the value in \<^verbatim>\<open>object[value]\<close> into the property name: an
  array is its elements joined by commas (\<^verbatim>\<open>null\<close> and \<^verbatim>\<open>undefined\<close> as the empty string),
  every plain object is \<^verbatim>\<open>[object Object]\<close>, a native function prints as V8 prints it.
\<close>

fun to_string :: "jsval \<Rightarrow> string" where
  "to_string JUndefined = ''undefined''"
| "to_string JNull = ''null''"
| "to_string (JBool b) = (if b then ''true'' else ''false'')"
| "to_string (JNum n) = string_of_int n"
| "to_string (JStr s) = s"
| "to_string (JArr xs) =
     join_comma (map (\<lambda>v. if v = JNull \<or> v = JUndefined then [] else to_string v) xs)"
| "to_string (JObj ps) = ''[object Object]''"
| "to_string (JBuiltin k) =
     (if k = ''__proto__'' then ''[object Object]''
      else ''function '' @ (if k = ''constructor'' then ''Object'' else k) @ ''() { [native code] }'')"

subsection \<open>Plain objects\<close>

text \<open>The names every plain object inherits from \<^verbatim>\<open>Object.prototype\<close>.\<close>

definition object_prototype_names :: "string list" where
  "object_prototype_names =
     [''constructor'', ''__defineGetter__'', ''__defineSetter__'', ''hasOwnProperty'',
      ''__lookupGetter__'', ''__lookupSetter__'', ''isPrototypeOf'', ''propertyIsEnumerable'',
      ''toString'', ''valueOf'', ''__proto__'', ''toLocaleString'']"

text \<open>\<^verbatim>\<open>object[k]\<close> on a plain object: the own property, else the inherited one, else \<^verbatim>\<open>undefined\<close>.\<close>

definition obj_get :: "obj \<Rightarrow> string \<Rightarrow> jsval" where
  "obj_get ps k =
     (case map_of ps k of
        Some v \<Rightarrow> v
      | None \<Rightarrow> if k \<in> set object_prototype_names then JBuiltin k else JUndefined)"

text \<open>
  \<^verbatim>\<open>object[k] = v\<close> on a plain object: an own property keeps its place, a new one goes
  last. Under the name \<^verbatim>\<open>__proto__\<close> the assignment runs the inherited setter, which
  changes the prototype (or nothing) and never creates an own property.
\<close>

definition obj_set :: "obj \<Rightarrow> string \<Rightarrow> jsval \<Rightarrow> obj" where
  "obj_set ps k v = (if k = ''__proto__'' \<and> map_of ps k = None then ps else AList.update k v ps)"

text \<open>
  The keys that are array indices (\<^verbatim>\<open>'0'\<close>, \<^verbatim>\<open>'1'\<close> and so on: the canonical
  decimal numerals below 4294967295): an object enumerates them first, in ascending
  order, and the other names after them in the order of insertion.
\<close>

definition is_digit :: "char \<Rightarrow> bool" where
  "is_digit c = (c \<in> set ''0123456789'')"

definition digit_value :: "char \<Rightarrow> int" where
  "digit_value c = int (length (takeWhile (\<lambda>d. d \<noteq> c) ''0123456789''))"

definition int_of_digits :: "string \<Rightarrow> int" where
  "int_of_digits s = foldl (\<lambda>n c. 10 * n + digit_value c) 0 s"

definition array_index :: "string \<Rightarrow> int option" where
  "array_index s =
     (if s \<noteq> [] \<and> list_all is_digit s \<and> (s = ''0'' \<or> hd s \<noteq> CHR ''0'')
         \<and> int_of_digits s < 4294967295
      then Some (int_of_digits s) else None)"

definition own_entries :: "obj \<Rightarrow> obj" where
  "own_entries ps =
     sort_key (\<lambda>p. the (array_index (fst p))) (filter (\<lambda>p. array_index (fst p) \<noteq> None) ps)
     @ filter (\<lambda>p. array_index (fst p) = None) ps"

text \<open>
  The own enumerable properties of a value, as \<^verbatim>\<open>Object.entries\<close>, \<^verbatim>\<open>Object.values\<close>,
  \<^verbatim>\<open>Object.assign\<close> and the spread \<^verbatim>\<open>{...v}\<close> enumerate them: the elements of an
  array and the characters of a string under their indices, nothing for a number, a
  boolean or a native function. (\<^verbatim>\<open>Object.entries\<close> and \<^verbatim>\<open>Object.values\<close> throw on
  \<^verbatim>\<open>null\<close> and \<^verbatim>\<open>undefined\<close>; the code calls them behind a test or a statement that
  has thrown before. The spread and \<^verbatim>\<open>Object.assign\<close> take both as empty.)
\<close>

definition entries :: "jsval \<Rightarrow> obj" where
  "entries v =
     (case v of
        JObj ps \<Rightarrow> own_entries ps
      | JArr xs \<Rightarrow> zip (map string_of_nat [0..<length xs]) xs
      | JStr s \<Rightarrow> zip (map string_of_nat [0..<length s]) (map (\<lambda>c. JStr [c]) s)
      | _ \<Rightarrow> [])"

definition Object_values :: "jsval \<Rightarrow> jsval list" where
  "Object_values v = map snd (entries v)"

text \<open>
  An object literal \<^verbatim>\<open>{a: x, ...v, ...w}\<close> defines its properties one after the other
  (a later one replaces the value of an earlier one of the same name, in its place).
\<close>

definition define_all :: "obj \<Rightarrow> obj \<Rightarrow> obj" where
  "define_all target ps = foldl (\<lambda>ob p. AList.update (fst p) (snd p) ob) target ps"

definition spread :: "jsval \<Rightarrow> jsval \<Rightarrow> obj" where
  "spread v w = define_all (define_all [] (entries v)) (entries w)"

text \<open>\<^verbatim>\<open>Object.assign(target, source)\<close> assigns the properties of the source one by one.\<close>

definition Object_assign :: "obj \<Rightarrow> jsval \<Rightarrow> obj" where
  "Object_assign target source = foldl (\<lambda>ob p. obj_set ob (fst p) (snd p)) target (entries source)"

text \<open>
  \<^verbatim>\<open>v[k]\<close> and \<^verbatim>\<open>v.k\<close> on a value of the API: a \<^verbatim>\<open>TypeError\<close> on \<^verbatim>\<open>null\<close> and
  \<^verbatim>\<open>undefined\<close>; the elements and the length of an array or a string. Of the
  prototypes only \<^verbatim>\<open>Object.prototype\<close> is modelled: the methods of arrays, strings,
  numbers and functions, and the own properties of native functions, are left out
  (the code reads the data fields of records; where it can reach a property of a native
  function, in the table lookup of the joins, the model takes it from a parameter).
\<close>

definition js_get :: "jsval \<Rightarrow> string \<Rightarrow> error + jsval" where
  "js_get v k =
     (case v of
        JUndefined \<Rightarrow> Inl TypeError
      | JNull \<Rightarrow> Inl TypeError
      | JObj ps \<Rightarrow> Inr (obj_get ps k)
      | JArr xs \<Rightarrow>
          Inr (case array_index k of
                 Some i \<Rightarrow> if i < int (length xs) then xs ! nat i else JUndefined
               | None \<Rightarrow> if k = ''length'' then JNum (int (length xs)) else obj_get [] k)
      | JStr s \<Rightarrow>
          Inr (case array_index k of
                 Some i \<Rightarrow> if i < int (length s) then JStr [s ! nat i] else JUndefined
               | None \<Rightarrow> if k = ''length'' then JNum (int (length s)) else obj_get [] k)
      | _ \<Rightarrow> Inr (obj_get [] k))"

text \<open>
  \<^verbatim>\<open>delete v.k\<close> for a name \<open>k\<close> that is no index: a \<^verbatim>\<open>TypeError\<close> on \<^verbatim>\<open>null\<close> and
  \<^verbatim>\<open>undefined\<close>; removes an own property of an object; nothing to remove elsewhere.
\<close>

definition js_delete :: "jsval \<Rightarrow> string \<Rightarrow> error + jsval" where
  "js_delete v k =
     (case v of
        JUndefined \<Rightarrow> Inl TypeError
      | JNull \<Rightarrow> Inl TypeError
      | JObj ps \<Rightarrow> Inr (JObj (AList.delete k ps))
      | _ \<Rightarrow> Inr v)"

section \<open>utils.js\<close>

subsection \<open>promiseSeries\<close>

text \<open>
  A task is a function that gets the array of the values resolved so far and returns a
  promise. What running it does is a function of the world \<open>'w\<close> (the network, a log,
  whatever the task touches): the settled promise, rejected (\<open>Inl\<close>) or resolved (\<open>Inr\<close>),
  and the world after it. A task that throws, or returns no promise, rejects the chain
  like a rejected promise does, since it runs inside a \<^verbatim>\<open>then\<close> callback.
\<close>

type_synonym ('e, 'w) task = "jsval list \<Rightarrow> 'w \<Rightarrow> ('e + jsval) \<times> 'w"

text \<open>
  \<^verbatim>\<open>Array.prototype.concat.bind(list)\<close>, called with the resolved value: \<^verbatim>\<open>concat\<close>
  appends its argument, and appends the elements of an argument that is an array.
\<close>

definition concat_bound :: "jsval list \<Rightarrow> jsval \<Rightarrow> jsval list" where
  "concat_bound list v = (case v of JArr xs \<Rightarrow> list @ xs | _ \<Rightarrow> list @ [v])"

definition promiseConcat :: "('e, 'w) task \<Rightarrow> jsval list \<Rightarrow> 'w \<Rightarrow> ('e + jsval list) \<times> 'w" where
  "promiseConcat func resolves w =
     (case func resolves w of
        (Inl err, w') \<Rightarrow> (Inl err, w')
      | (Inr v, w') \<Rightarrow> (Inr (concat_bound resolves v), w'))"

text \<open>
  The chain so far has settled with a rejection, which \<^verbatim>\<open>then\<close> passes on without
  calling its callback, or with the array of resolved values.
\<close>

definition promiseReduce :: "('e + jsval list) \<times> 'w \<Rightarrow> ('e, 'w) task \<Rightarrow> ('e + jsval list) \<times> 'w" where
  "promiseReduce chain func =
     (case chain of
        (Inl err, w) \<Rightarrow> (Inl err, w)
      | (Inr resolves, w) \<Rightarrow> promiseConcat func resolves w)"

definition promiseSeries :: "('e, 'w) task list \<Rightarrow> 'w \<Rightarrow> ('e + jsval list) \<times> 'w" where
  "promiseSeries funcs w = foldl promiseReduce (Inr [], w) funcs"

subsection \<open>uniq\<close>

text \<open>
  A \<^verbatim>\<open>Set\<close> keeps its elements in the order of insertion and compares them with
  SameValueZero. The element type \<open>'a\<close> stands for the values under that comparison:
  primitive values by value, objects by reference.
\<close>

definition Set_add :: "'a list \<Rightarrow> 'a \<Rightarrow> 'a list" where
  "Set_add s x = (if x \<in> set s then s else s @ [x])"

definition new_Set :: "'a list \<Rightarrow> 'a list" where
  "new_Set arr = foldl Set_add [] arr"

datatype 'a filter_arg = FilterFunction "'a \<Rightarrow> nat \<Rightarrow> 'a list \<Rightarrow> jsval" | FilterString string

text \<open>
  The callback of \<^verbatim>\<open>arr.filter\<close>, run over the items from index \<open>i\<close> on. \<open>valueList\<close> is
  the plain object \<^verbatim>\<open>{}\<close> the values are stored in as property names; \<open>get\<close> is the
  property read \<^verbatim>\<open>item[filter]\<close> of the element type.
\<close>

fun uniq_filter ::
  "('a \<Rightarrow> string \<Rightarrow> error + jsval) \<Rightarrow> 'a filter_arg \<Rightarrow> 'a list \<Rightarrow> obj \<Rightarrow> nat \<Rightarrow> 'a list \<Rightarrow> error + 'a list" where
  "uniq_filter get filter' array valueList i [] = Inr []"
| "uniq_filter get filter' array valueList i (item # rest) =
     (case (case filter' of
              FilterFunction f \<Rightarrow> Inr (f item i array)
            | FilterString name \<Rightarrow> get item name) of
        Inl err \<Rightarrow> Inl err
      | Inr v \<Rightarrow>
          if truthy (obj_get valueList (to_string v))
          then uniq_filter get filter' array valueList (Suc i) rest
          else (case uniq_filter get filter' array (obj_set valueList (to_string v) (JBool True)) (Suc i) rest of
                  Inl err \<Rightarrow> Inl err
                | Inr kept \<Rightarrow> Inr (item # kept)))"

definition uniq :: "('a \<Rightarrow> string \<Rightarrow> error + jsval) \<Rightarrow> 'a list \<Rightarrow> 'a filter_arg option \<Rightarrow> error + 'a list" where
  "uniq get arr filter' =
     (case filter' of
        None \<Rightarrow> Inr (new_Set arr)
      | Some f \<Rightarrow> uniq_filter get f arr [] 0 arr)"

subsection \<open>reduceChunk\<close>

text \<open>
  The reducer \<^verbatim>\<open>reduceChunk(chunksize)\<close>. The size is a number that is only compared
  with a length: a real here, so that a size that is no integer can be given (every
  finite number of JavaScript is a real, and the comparison with an integer is exact;
  NaN and the infinities are left out). The accumulator is changed in place and
  returned; the model returns the new value.
\<close>

definition reduceChunk :: "real \<Rightarrow> 'a list list \<Rightarrow> 'a \<Rightarrow> 'a list list" where
  "reduceChunk chunksize total0 item =
     (let currentIndex = int (length total0) - 1;
          shouldStartNewChunk =
            (currentIndex = - 1 \<or> chunksize \<le> real (length (total0 ! nat currentIndex)));
          total1 = (if shouldStartNewChunk then total0 @ [[]] else total0);
          currentIndex1 = (if shouldStartNewChunk then currentIndex + 1 else currentIndex)
      in total1[nat currentIndex1 := total1 ! nat currentIndex1 @ [item]])"

text \<open>
  \<^verbatim>\<open>items.reduce(reduceChunk(size), [])\<close>, the way the reducer is used. No statement of
  the reducer throws and it tests its size nowhere: the result is always a value.
\<close>

definition chunk :: "real \<Rightarrow> 'a list \<Rightarrow> error + 'a list list" where
  "chunk chunksize items = Inr (foldl (reduceChunk chunksize) [] items)"

subsection \<open>groupBy and indexBy\<close>

datatype key = KeyFunction "jsval \<Rightarrow> nat \<Rightarrow> jsval" | KeyString string

fun derive_key :: "key \<Rightarrow> jsval \<Rightarrow> nat \<Rightarrow> error + jsval" where
  "derive_key (KeyFunction fn) item i = Inr (fn item i)"
| "derive_key (KeyString name) item i = js_get item name"

text \<open>
  \<^verbatim>\<open>(group[value] = group[value] || []).push(item)\<close>: what \<^verbatim>\<open>group[value]\<close> reads is an
  array stored before, \<^verbatim>\<open>undefined\<close>, or a value inherited from \<^verbatim>\<open>Object.prototype\<close>,
  which is truthy and has no \<^verbatim>\<open>push\<close>: the call throws a \<^verbatim>\<open>TypeError\<close>.
\<close>

fun groupBy_reduce :: "key \<Rightarrow> obj \<Rightarrow> nat \<Rightarrow> jsval list \<Rightarrow> error + obj" where
  "groupBy_reduce key group' i [] = Inr group'"
| "groupBy_reduce key group' i (item # rest) =
     (case derive_key key item i of
        Inl err \<Rightarrow> Inl err
      | Inr v \<Rightarrow>
          (let current = obj_get group' (to_string v)
           in if truthy current
              then (case current of
                      JArr xs \<Rightarrow> groupBy_reduce key (obj_set group' (to_string v) (JArr (xs @ [item]))) (Suc i) rest
                    | _ \<Rightarrow> Inl TypeError)
              else groupBy_reduce key (obj_set group' (to_string v) (JArr [item])) (Suc i) rest))"

text \<open>\<^verbatim>\<open>arr.reduce\<close> is a \<^verbatim>\<open>TypeError\<close> when \<open>arr\<close> is no array.\<close>

definition groupBy :: "jsval \<Rightarrow> key \<Rightarrow> error + obj" where
  "groupBy arr key = (case arr of JArr items \<Rightarrow> groupBy_reduce key [] 0 items | _ \<Rightarrow> Inl TypeError)"

fun indexBy_reduce :: "key \<Rightarrow> obj \<Rightarrow> nat \<Rightarrow> jsval list \<Rightarrow> error + obj" where
  "indexBy_reduce key group' i [] = Inr group'"
| "indexBy_reduce key group' i (item # rest) =
     (case derive_key key item i of
        Inl err \<Rightarrow> Inl err
      | Inr v \<Rightarrow>
          if obj_get group' (to_string v) = JUndefined
          then indexBy_reduce key (obj_set group' (to_string v) item) (Suc i) rest
          else indexBy_reduce key group' (Suc i) rest)"

definition indexBy :: "jsval \<Rightarrow> key \<Rightarrow> error + obj" where
  "indexBy arr key = (case arr of JArr items \<Rightarrow> indexBy_reduce key [] 0 items | _ \<Rightarrow> Inl TypeError)"

section \<open>index.js\<close>

text \<open>
  \<^verbatim>\<open>getJSON\<close> is the one collaborator: it takes the request and answers with the parsed
  JSON or rejects. It is a parameter of every operation, a function of the request and
  of the world \<open>'w\<close> (the network and the remote service).
\<close>

record request =
  request_method :: string
  uri :: string
  qs :: obj

definition API_HOSTNAME :: string where
  "API_HOSTNAME = ''api.steampowered.com''"

definition COMMUNITY_HOSTNAME :: string where
  "COMMUNITY_HOSTNAME = ''steamcommunity.com''"

definition then_do :: "error + 'a \<Rightarrow> ('a \<Rightarrow> error + 'b) \<Rightarrow> error + 'b" where
  "then_do r f = (case r of Inl err \<Rightarrow> Inl err | Inr v \<Rightarrow> f v)"

subsection \<open>fixClassInfo\<close>

text \<open>
  One round of the \<^verbatim>\<open>forEach\<close>: \<^verbatim>\<open>if (classinfo[key]) classinfo[key] = Object.values(classinfo[key])\<close>.
\<close>

definition fixClassInfo_key :: "obj \<Rightarrow> string \<Rightarrow> obj" where
  "fixClassInfo_key classinfo k =
     (if truthy (obj_get classinfo k)
      then obj_set classinfo k (JArr (Object_values (obj_get classinfo k)))
      else classinfo)"

text \<open>
  Reading a property of \<^verbatim>\<open>null\<close> or \<^verbatim>\<open>undefined\<close> throws. An array, a string, a number
  or a boolean has none of the four properties, so nothing is assigned to it.
\<close>

definition fixClassInfo :: "jsval \<Rightarrow> error + jsval" where
  "fixClassInfo classinfo =
     (case classinfo of
        JUndefined \<Rightarrow> Inl TypeError
      | JNull \<Rightarrow> Inl TypeError
      | JObj ps \<Rightarrow>
          Inr (JObj (foldl fixClassInfo_key ps [''actions'', ''market_actions'', ''tags'', ''descriptions'']))
      | _ \<Rightarrow> Inr classinfo)"

subsection \<open>The table of descriptions and the join\<close>

text \<open>
  \<^verbatim>\<open>Object.entries(groupBy(descriptions, outer)).reduce((table, [k, group]) => { table[k] = indexBy(group, inner); return table }, {})\<close>,
  as both \<^verbatim>\<open>mergeTradeHistoryResponseDescriptions\<close> (\<^verbatim>\<open>appid\<close>, \<^verbatim>\<open>classid\<close>) and
  \<^verbatim>\<open>getInventory\<close> (\<^verbatim>\<open>classid\<close>, \<^verbatim>\<open>instanceid\<close>) build it.
\<close>

fun table_reduce :: "string \<Rightarrow> obj \<Rightarrow> obj \<Rightarrow> error + obj" where
  "table_reduce inner table [] = Inr table"
| "table_reduce inner table (p # rest) =
     (case indexBy (snd p) (KeyString inner) of
        Inl err \<Rightarrow> Inl err
      | Inr indexed \<Rightarrow> table_reduce inner (obj_set table (fst p) (JObj indexed)) rest)"

definition description_table :: "jsval \<Rightarrow> string \<Rightarrow> string \<Rightarrow> error + obj" where
  "description_table descriptions outer inner =
     then_do (groupBy descriptions (KeyString outer)) (\<lambda>groups. table_reduce inner [] (own_entries groups))"

text \<open>
  \<^verbatim>\<open>table[item.outer] && table[item.outer][item.inner]\<close>. The first read gives an index
  built by \<^verbatim>\<open>indexBy\<close>, \<^verbatim>\<open>undefined\<close>, or a value inherited from \<^verbatim>\<open>Object.prototype\<close>;
  what a property of such a built-in is belongs to the runtime, not to the repository:
  \<open>builtin b k\<close> is the parameter that tells what reading the property \<open>k\<close> of the
  built-in \<open>Object.prototype[b]\<close> gives.
\<close>

definition table_lookup ::
  "(string \<Rightarrow> string \<Rightarrow> error + jsval) \<Rightarrow> obj \<Rightarrow> string \<Rightarrow> string \<Rightarrow> jsval \<Rightarrow> error + jsval" where
  "table_lookup builtin table outer inner item =
     then_do (js_get item outer) (\<lambda>a.
       if truthy (obj_get table (to_string a))
       then then_do (js_get item inner) (\<lambda>c.
              case obj_get table (to_string a) of
                JBuiltin b \<Rightarrow> builtin b (to_string c)
              | indexed \<Rightarrow> js_get indexed (to_string c))
       else Inr (obj_get table (to_string a)))"

fun map_result :: "('a \<Rightarrow> error + 'b) \<Rightarrow> 'a list \<Rightarrow> error + 'b list" where
  "map_result f [] = Inr []"
| "map_result f (x # xs) =
     (case f x of
        Inl err \<Rightarrow> Inl err
      | Inr y \<Rightarrow> (case map_result f xs of Inl err \<Rightarrow> Inl err | Inr ys \<Rightarrow> Inr (y # ys)))"

text \<open>\<^verbatim>\<open>v.map(f)\<close>: a \<^verbatim>\<open>TypeError\<close> when \<open>v\<close> is no array; the first callback that throws ends it.\<close>

definition array_map :: "(jsval \<Rightarrow> error + jsval) \<Rightarrow> jsval \<Rightarrow> error + jsval" where
  "array_map f v =
     (case v of
        JArr xs \<Rightarrow> then_do (map_result f xs) (\<lambda>ys. Inr (JArr ys))
      | _ \<Rightarrow> Inl TypeError)"

subsection \<open>mergeTradeHistoryResponseDescriptions\<close>

text \<open>The inner function: \<^verbatim>\<open>{...item, ...((table[item.appid] && table[item.appid][item.classid]) || {})}\<close> for every item.\<close>

definition withDescriptions :: "(string \<Rightarrow> string \<Rightarrow> error + jsval) \<Rightarrow> obj \<Rightarrow> jsval \<Rightarrow> error + jsval" where
  "withDescriptions builtin table items =
     array_map (\<lambda>item.
        then_do (table_lookup builtin table ''appid'' ''classid'' item) (\<lambda>found.
          Inr (JObj (spread item (if truthy found then found else JObj []))))) items"

text \<open>
  \<^verbatim>\<open>v.k = x\<close> in strict mode, where the code assigns to a record: a \<^verbatim>\<open>TypeError\<close> on
  \<^verbatim>\<open>null\<close>, \<^verbatim>\<open>undefined\<close> and the primitive values. (The code never comes to assign a
  named property to an array: the tests before the assignments fail on one.)
\<close>

definition js_set :: "jsval \<Rightarrow> string \<Rightarrow> jsval \<Rightarrow> error + jsval" where
  "js_set v k x = (case v of JObj ps \<Rightarrow> Inr (JObj (obj_set ps k x)) | _ \<Rightarrow> Inl TypeError)"

text \<open>\<^verbatim>\<open>if (trade[field] !== undefined) trade[field] = withDescriptions(trade[field])\<close>.\<close>

definition merge_assets ::
  "(string \<Rightarrow> string \<Rightarrow> error + jsval) \<Rightarrow> obj \<Rightarrow> string \<Rightarrow> jsval \<Rightarrow> error + jsval" where
  "merge_assets builtin table field trade =
     then_do (js_get trade field) (\<lambda>assets.
       if assets \<noteq> JUndefined
       then then_do (withDescriptions builtin table assets) (\<lambda>merged. js_set trade field merged)
       else Inr trade)"

text \<open>
  The response object is changed in place and returned; its state at the return is the
  value of the model.
\<close>

definition mergeTradeHistoryResponseDescriptions ::
  "(string \<Rightarrow> string \<Rightarrow> error + jsval) \<Rightarrow> jsval \<Rightarrow> error + jsval" where
  "mergeTradeHistoryResponseDescriptions builtin response =
     then_do (js_get response ''descriptions'') (\<lambda>descriptions.
     then_do (description_table descriptions ''appid'' ''classid'') (\<lambda>table.
     then_do (js_get response ''trades'') (\<lambda>trades.
     then_do (array_map (\<lambda>trade.
                then_do (merge_assets builtin table ''assets_given'' trade)
                  (merge_assets builtin table ''assets_received'')) trades) (\<lambda>merged.
     then_do (js_set response ''trades'' merged) (\<lambda>response1.
     js_delete response1 ''descriptions'')))))"

subsection \<open>getAssetClassInfos\<close>

definition classidsMap :: "jsval list \<Rightarrow> obj" where
  "classidsMap classids =
     foldl (\<lambda>total0 p. obj_set total0 (''classid'' @ string_of_nat (fst p)) (snd p)) []
       (zip [0..<length classids] classids)"

definition getAssetClassInfoRequest ::
  "(request \<Rightarrow> 'w \<Rightarrow> (error + jsval) \<times> 'w) \<Rightarrow> jsval \<Rightarrow> jsval \<Rightarrow> jsval \<Rightarrow> jsval list \<Rightarrow> 'w
     \<Rightarrow> (error + jsval) \<times> 'w" where
  "getAssetClassInfoRequest getJSON apiKey appid options classids w =
     getJSON \<lparr>request_method = ''GET'',
              uri = ''https://'' @ API_HOSTNAME @ ''/ISteamEconomy/GetAssetClassInfo/v0001'',
              qs = define_all []
                     ([(''appid'', appid), (''key'', apiKey), (''class_count'', JNum (int (length classids)))]
                      @ own_entries (classidsMap classids) @ entries options)\<rparr> w"

text \<open>\<^verbatim>\<open>Object.entries(result).reduce((classinfo, [classid, value]) => { classinfo[classid] = fixClassInfo(value); return classinfo }, {})\<close>.\<close>

fun classinfo_reduce :: "obj \<Rightarrow> obj \<Rightarrow> error + obj" where
  "classinfo_reduce classinfo [] = Inr classinfo"
| "classinfo_reduce classinfo (p # rest) =
     (case fixClassInfo (snd p) of
        Inl err \<Rightarrow> Inl err
      | Inr fixed \<Rightarrow> classinfo_reduce (obj_set classinfo (fst p) fixed) rest)"

text \<open>
  The task made of one chunk: the request, \<^verbatim>\<open>const { result } = response\<close>,
  \<^verbatim>\<open>delete result.success\<close>, the pause (which changes no value), and the reduction.
\<close>

definition classinfo_task ::
  "(request \<Rightarrow> 'w \<Rightarrow> (error + jsval) \<times> 'w) \<Rightarrow> jsval \<Rightarrow> jsval \<Rightarrow> jsval \<Rightarrow> jsval list \<Rightarrow> (error, 'w) task" where
  "classinfo_task getJSON apiKey appid options chunk0 resolves w =
     (case getAssetClassInfoRequest getJSON apiKey appid options chunk0 w of
        (Inl err, w') \<Rightarrow> (Inl err, w')
      | (Inr response, w') \<Rightarrow>
          (then_do (js_get response ''result'') (\<lambda>result.
           then_do (js_delete result ''success'') (\<lambda>result1.
           then_do (classinfo_reduce [] (entries result1)) (\<lambda>classinfo. Inr (JObj classinfo)))), w'))"

definition getAssetClassInfos ::
  "(request \<Rightarrow> 'w \<Rightarrow> (error + jsval) \<times> 'w) \<Rightarrow> jsval \<Rightarrow> jsval \<Rightarrow> jsval list \<Rightarrow> jsval \<Rightarrow> 'w
     \<Rightarrow> (error + obj) \<times> 'w" where
  "getAssetClassInfos getJSON apiKey appid classids options w =
     (case uniq js_get classids None of
        Inl err \<Rightarrow> (Inl err, w)
      | Inr ids \<Rightarrow>
          (case chunk 20 ids of
             Inl err \<Rightarrow> (Inl err, w)
           | Inr chunks \<Rightarrow>
               (case promiseSeries (map (classinfo_task getJSON apiKey appid options) chunks) w of
                  (Inl err, w') \<Rightarrow> (Inl err, w')
                | (Inr responses, w') \<Rightarrow> (Inr (foldl Object_assign [] responses), w'))))"

subsection \<open>getInventory\<close>

definition getInventory ::
  "(string \<Rightarrow> string \<Rightarrow> error + jsval) \<Rightarrow> (request \<Rightarrow> 'w \<Rightarrow> (error + jsval) \<times> 'w)
     \<Rightarrow> jsval \<Rightarrow> jsval \<Rightarrow> jsval \<Rightarrow> jsval \<Rightarrow> 'w \<Rightarrow> (error + jsval) \<times> 'w" where
  "getInventory builtin getJSON appid contextid steamid options w =
     (case getJSON \<lparr>request_method = ''GET'',
                    uri = ''https://'' @ COMMUNITY_HOSTNAME @ ''/inventory/'' @ to_string steamid
                          @ ''/'' @ to_string appid @ ''/'' @ to_string contextid,
                    qs = define_all [] ([(''l'', JStr ''english''), (''count'', JNum 5000)] @ entries options)\<rparr> w of
        (Inl err, w') \<Rightarrow> (Inl err, w')
      | (Inr response, w') \<Rightarrow>
          (then_do (js_get response ''assets'') (\<lambda>assets.
           then_do (js_get response ''descriptions'') (\<lambda>descriptions.
           then_do (description_table descriptions ''classid'' ''instanceid'') (\<lambda>classinfos.
           array_map (\<lambda>item.
              then_do (table_lookup builtin classinfos ''classid'' ''instanceid'' item) (\<lambda>description.
                Inr (JObj (spread item description)))) assets))), w'))"

subsection \<open>getTradeHistory\<close>

text \<open>
  The options are an object of the caller, passed by reference: the objects that exist
  at the call are a store, a list of objects addressed by position (an address is valid
  when it is below the length of the store). An object literal allocates a new object
  at the end of the store.
\<close>

type_synonym store = "obj list"

definition alloc :: "store \<Rightarrow> obj \<Rightarrow> nat \<times> store" where
  "alloc h ob = (length h, h @ [ob])"

text \<open>
  \<open>options\<close> is the address of the caller's object, or \<open>None\<close> for a call without
  argument, where the default \<^verbatim>\<open>{}\<close> is allocated. The result is what the promise
  settles with, the store and the world after the call.
\<close>

definition getTradeHistory ::
  "(string \<Rightarrow> string \<Rightarrow> error + jsval) \<Rightarrow> (request \<Rightarrow> 'w \<Rightarrow> (error + jsval) \<times> 'w)
     \<Rightarrow> jsval \<Rightarrow> nat option \<Rightarrow> store \<Rightarrow> 'w \<Rightarrow> (error + jsval) \<times> store \<times> 'w" where
  "getTradeHistory builtin getJSON apiKey options h w =
     (let (options_ref, h0) = (case options of None \<Rightarrow> alloc h [] | Some a \<Rightarrow> (a, h));
          (params, h1) = alloc h0 (define_all [] (own_entries (h0 ! options_ref)));
          combine_descriptions = obj_get (h1 ! params) ''combine_descriptions'';
          h2 = h1[params := AList.delete ''combine_descriptions'' (h1 ! params)];
          (r, w') = getJSON \<lparr>request_method = ''GET'',
                             uri = ''https://'' @ API_HOSTNAME @ ''/IEconService/GetTradeHistory/v1/'',
                             qs = define_all [(''key'', apiKey)] (own_entries (h2 ! params))\<rparr> w
      in (then_do r (\<lambda>response.
          then_do (js_get response ''response'') (\<lambda>data.
            if \<not> truthy data then Inl (Error ''No response data.'')
            else if truthy combine_descriptions
                 then mergeTradeHistoryResponseDescriptions builtin data
                 else Inr data)), h2, w'))"

section \<open>Notions of the specification\<close>

text \<open>
  The distinct elements of a list in first-occurrence order, in the words of the
  specification: the elements at the positions where an element stands for the first time.
\<close>

definition first_occurrences :: "'a list \<Rightarrow> 'a list" where
  "first_occurrences L = map ((!) L) (filter (\<lambda>i. L ! i \<notin> set (take i L)) [0..<length L])"

text \<open>
  A response that differs from \<open>response\<close> in the value of the \<^verbatim>\<open>success\<close> flag of its
  result only: the flag, when the result has one, is given the value \<open>v\<close>. A collaborator
  that differs from \<open>getJSON\<close> in the flags of its answers only.
\<close>

definition set_success :: "jsval \<Rightarrow> jsval \<Rightarrow> jsval" where
  "set_success v response =
     (case response of
        JObj ps \<Rightarrow>
          (case map_of ps ''result'' of
             Some (JObj result) \<Rightarrow>
               JObj (AList.update ''result'' (JObj (AList.map_entry ''success'' (\<lambda>old. v) result)) ps)
           | _ \<Rightarrow> response)
      | _ \<Rightarrow> response)"

definition success_changed ::
  "(request \<Rightarrow> 'w \<Rightarrow> jsval) \<Rightarrow> (request \<Rightarrow> 'w \<Rightarrow> (error + jsval) \<times> 'w)
     \<Rightarrow> request \<Rightarrow> 'w \<Rightarrow> (error + jsval) \<times> 'w" where
  "success_changed v getJSON req w =
     (case getJSON req w of
        (Inl err, w') \<Rightarrow> (Inl err, w')
      | (Inr response, w') \<Rightarrow> (Inr (set_success (v req w) response), w'))"

text \<open>
  The property names that \<^verbatim>\<open>groupBy\<close> and \<^verbatim>\<open>indexBy\<close> derive from the items, in the
  order of the items, when no derivation throws; the index of the first item is \<open>i\<close>.
\<close>

fun derived_keys :: "key \<Rightarrow> nat \<Rightarrow> jsval list \<Rightarrow> error + string list" where
  "derived_keys key i [] = Inr []"
| "derived_keys key i (item # rest) =
     (case derive_key key item i of
        Inl err \<Rightarrow> Inl err
      | Inr v \<Rightarrow>
          (case derived_keys key (Suc i) rest of
             Inl err \<Rightarrow> Inl err
           | Inr ks \<Rightarrow> Inr (to_string v # ks)))"

text \<open>The same for the filter of \<^verbatim>\<open>uniq\<close>.\<close>

fun uniq_keys ::
  "('a \<Rightarrow> string \<Rightarrow> error + jsval) \<Rightarrow> 'a filter_arg \<Rightarrow> 'a list \<Rightarrow> nat \<Rightarrow> 'a list \<Rightarrow> error + string list" where
  "uniq_keys get filter' array i [] = Inr []"
| "uniq_keys get filter' array i (item # rest) =
     (case (case filter' of
              FilterFunction f \<Rightarrow> Inr (f item i array)
            | FilterString name \<Rightarrow> get item name) of
        Inl err \<Rightarrow> Inl err
      | Inr v \<Rightarrow>
          (case uniq_keys get filter' array (Suc i) rest of
             Inl err \<Rightarrow> Inl err
           | Inr ks \<Rightarrow> Inr (to_string v # ks)))"

text \<open>
  Of items \<open>xs\<close> with the keys \<open>ks\<close>, the first item of every key, in the order of the
  items: the items at the positions where a key stands for the first time.
\<close>

definition first_per_key :: "string list \<Rightarrow> 'a list \<Rightarrow> 'a list" where
  "first_per_key ks xs = map ((!) xs) (filter (\<lambda>j. ks ! j \<notin> set (take j ks)) [0..<length xs])"

text \<open>
  The join in the words of the specification, for records: the property name a field
  of a record gives, the first description that has the outer and the inner key of the
  item, and the item merged with it, or the item alone where there is none.
\<close>

definition record_key :: "string \<Rightarrow> obj \<Rightarrow> string" where
  "record_key field r = to_string (obj_get r field)"

definition matching :: "string \<Rightarrow> string \<Rightarrow> obj list \<Rightarrow> obj \<Rightarrow> obj option" where
  "matching outer inner descriptions item =
     find (\<lambda>d. record_key outer d = record_key outer item \<and> record_key inner d = record_key inner item)
       descriptions"

definition joined :: "string \<Rightarrow> string \<Rightarrow> obj list \<Rightarrow> obj \<Rightarrow> jsval" where
  "joined outer inner descriptions item =
     (case matching outer inner descriptions item of
        Some d \<Rightarrow> JObj (spread (JObj item) (JObj d))
      | None \<Rightarrow> JObj (spread (JObj item) JUndefined))"

section \<open>Plain objects and lists\<close>

text \<open>
  Reading, writing and enumerating the properties of a plain object.
\<close>

lemma Object_values_JArr: "Object_values (JArr xs) = xs"
  by (simp add: Object_values_def entries_def)

lemma obj_get_JArr: "obj_get ps k = JArr xs \<Longrightarrow> map_of ps k = Some (JArr xs)"
  by (auto simp add: obj_get_def split: option.splits if_splits)

lemma obj_get_own: "map_of ps k = Some v \<Longrightarrow> obj_get ps k = v"
  by (simp add: obj_get_def)

lemma obj_get_absent:
  "map_of ps k = None \<Longrightarrow> k \<notin> set object_prototype_names \<Longrightarrow> obj_get ps k = JUndefined"
  by (simp add: obj_get_def)

lemma obj_get_safe:
  "k \<notin> set object_prototype_names \<Longrightarrow> obj_get ps k = (case map_of ps k of Some v \<Rightarrow> v | None \<Rightarrow> JUndefined)"
  by (simp add: obj_get_def)

lemma safe_not_proto: "k \<notin> set object_prototype_names \<Longrightarrow> k \<noteq> ''__proto__''"
  by (auto simp add: object_prototype_names_def)

lemma map_of_obj_set:
  "k \<noteq> ''__proto__'' \<Longrightarrow> map_of (obj_set ps k v) k' = (if k' = k then Some v else map_of ps k')"
  by (simp add: obj_set_def update_conv')

lemma map_of_obj_set_None:
  "k \<noteq> s \<Longrightarrow> map_of ps s = None \<Longrightarrow> map_of (obj_set ps k v) s = None"
  by (simp add: obj_set_def update_conv')

lemma obj_get_obj_set_other: "k' \<noteq> k \<Longrightarrow> obj_get (obj_set ps k v) k' = obj_get ps k'"
  by (simp add: obj_get_def obj_set_def update_conv')

lemma obj_set_same: "map_of ps k = Some v \<Longrightarrow> obj_set ps k v = ps"
  by (simp add: obj_set_def update_triv)

lemma set_own_entries: "set (own_entries ps) = set ps"
  by (auto simp add: own_entries_def)

lemma distinct_map_insort_key:
  "distinct (map g (insort_key f x ys)) = (g x \<notin> g ` set ys \<and> distinct (map g ys))"
  by (induction ys) (auto simp add: set_insort_key)

lemma distinct_map_sort_key: "distinct (map g (sort_key f xs)) = distinct (map g xs)"
  by (induction xs) (simp_all add: distinct_map_insort_key)

lemma distinct_own_entries:
  assumes "distinct (map fst ps)"
  shows "distinct (map fst (own_entries ps))"
proof -
  have "fst ` set (filter (\<lambda>p. array_index (fst p) \<noteq> None) ps)
      \<inter> fst ` set (filter (\<lambda>p. array_index (fst p) = None) ps) = {}"
    by auto
  with assms show ?thesis
    by (simp add: own_entries_def distinct_map_sort_key distinct_map_filter)
qed

lemma map_of_own_entries:
  assumes "distinct (map fst ps)"
  shows "map_of (own_entries ps) = map_of ps"
  using map_of_inject_set [OF distinct_own_entries [OF assms] assms]
  by (simp add: set_own_entries)

lemma map_of_define_all_None:
  "(map_of (define_all target ps) k = None) = (map_of target k = None \<and> k \<notin> fst ` set ps)"
  unfolding define_all_def
  by (induction ps arbitrary: target) (auto simp add: update_conv')

lemma map_of_define_all:
  assumes "distinct (map fst ps)"
  shows "map_of (define_all target ps) = map_of target ++ map_of ps"
  using assms
proof (induction ps arbitrary: target)
  case Nil
  show ?case by (simp add: define_all_def)
next
  case (Cons p ps)
  then have d: "distinct (map fst ps)" and f: "fst p \<notin> fst ` set ps" by auto
  from f have n: "map_of ps (fst p) = None" by (simp add: map_of_eq_None_iff)
  have "define_all target (p # ps) = define_all (AList.update (fst p) (snd p) target) ps"
    by (simp add: define_all_def)
  then have "map_of (define_all target (p # ps))
      = map_of (AList.update (fst p) (snd p) target) ++ map_of ps"
    by (simp only: Cons.IH [OF d])
  also have "\<dots> = map_of target ++ map_of (p # ps)"
  proof
    fix k
    show "(map_of (AList.update (fst p) (snd p) target) ++ map_of ps) k
        = (map_of target ++ map_of (p # ps)) k"
      using n by (cases p) (auto simp add: update_conv' map_add_def split: option.splits)
  qed
  finally show ?case .
qed

text \<open>
  The spread of two records with distinct field names is their merge, the fields of the
  second over those of the first; the spread of a record and
  \<^verbatim>\<open>undefined\<close> has the fields of the record and no other.
\<close>

lemma map_of_spread:
  assumes "distinct (map fst a)" and "distinct (map fst b)"
  shows "map_of (spread (JObj a) (JObj b)) = map_of a ++ map_of b"
    and "map_of (spread (JObj a) JUndefined) = map_of a"
proof -
  have a: "map_of (define_all [] (own_entries a)) = map_of a"
    using assms(1) by (simp add: map_of_define_all distinct_own_entries map_of_own_entries)
  show "map_of (spread (JObj a) (JObj b)) = map_of a ++ map_of b"
    using assms(2) a
    by (simp add: spread_def entries_def map_of_define_all distinct_own_entries map_of_own_entries)
  show "map_of (spread (JObj a) JUndefined) = map_of a"
    using a by (simp add: spread_def entries_def define_all_def)
qed

lemma spread_empty_object: "spread v (JObj []) = spread v JUndefined"
  by (simp add: spread_def entries_def own_entries_def)

lemma delete_map_entry: "AList.delete k (AList.map_entry k f al) = AList.delete k al"
  by (induction al) (auto simp add: AList.delete_eq)

lemma string_of_nat_digits: "set (string_of_nat n) \<subseteq> set ''0123456789''"
proof (induction n rule: string_of_nat.induct)
  case (1 n)
  have d: "''0123456789'' ! k \<in> set ''0123456789''" if "k < 10" for k
    using that by (intro nth_mem) simp
  show ?case
  proof (cases "n < 10")
    case True
    with d [of n] show ?thesis by (subst string_of_nat.simps) simp
  next
    case False
    with 1 d [of "n mod 10"] show ?thesis by (subst string_of_nat.simps) simp
  qed
qed

lemma string_of_nat_not_success: "string_of_nat n \<noteq> ''success''"
proof
  assume "string_of_nat n = ''success''"
  with string_of_nat_digits [of n] show False by simp
qed

lemma success_notin_indices: "''success'' \<notin> fst ` set (zip (map string_of_nat ns) xs)"
proof
  assume "''success'' \<in> fst ` set (zip (map string_of_nat ns) xs)"
  then obtain v where "(''success'', v) \<in> set (zip (map string_of_nat ns) xs)" by auto
  then have "''success'' \<in> set (map string_of_nat ns)" by (rule set_zip_leftD)
  then obtain n where "string_of_nat n = ''success''" by auto
  then show False by (simp add: string_of_nat_not_success)
qed

lemma map_result_all: "\<forall>x\<in>set xs. f x = Inr (g x) \<Longrightarrow> map_result f xs = Inr (map g xs)"
  by (induction xs) simp_all

lemma find_filter_conj: "find P (filter Q xs) = find (\<lambda>x. Q x \<and> P x) xs"
  by (induction xs) auto

lemma filter_upt_Suc:
  "filter P [0..<Suc n] = (if P 0 then [0] else []) @ map Suc (filter (\<lambda>j. P (Suc j)) [0..<n])"
proof -
  have "[0..<Suc n] = 0 # map Suc [0..<n]"
    by (simp add: upt_conv_Cons map_Suc_upt del: upt_Suc)
  then show ?thesis by (simp add: filter_map comp_def del: upt_Suc)
qed

section \<open>Deduplication and chunking\<close>

lemma reduceChunk_Nil: "reduceChunk s [] x = [[x]]"
  by (simp add: reduceChunk_def)

lemma reduceChunk_snoc:
  "reduceChunk s (cs @ [c]) x = (if s \<le> real (length c) then cs @ [c, [x]] else cs @ [c @ [x]])"
proof -
  have n: "nat (int (length cs) + 1) = Suc (length cs)" by simp
  have u: "(cs @ [c, []])[Suc (length cs) := [x]] = cs @ [c, [x]]"
    by (simp add: list_update_append)
  show ?thesis
    by (simp add: reduceChunk_def Let_def nth_append n u)
qed

lemma set_new_Set: "set (new_Set L) = set L"
  by (induction L rule: rev_induct) (auto simp add: new_Set_def Set_add_def)

lemma new_Set_snoc: "new_Set (L @ [x]) = (if x \<in> set L then new_Set L else new_Set L @ [x])"
  using set_new_Set [of L] by (simp add: new_Set_def Set_add_def)

lemma new_Set_first_occurrences: "new_Set L = first_occurrences L"
proof (induction L rule: rev_induct)
  case Nil
  show ?case by (simp add: new_Set_def first_occurrences_def)
next
  case (snoc x xs)
  let ?first = "\<lambda>L i. L ! i \<notin> set (take i L)"
  have f: "filter (?first (xs @ [x])) [0..<length xs] = filter (?first xs) [0..<length xs]"
    by (rule filter_cong) (auto simp add: nth_append)
  have m: "map ((!) (xs @ [x])) (filter (?first xs) [0..<length xs])
      = map ((!) xs) (filter (?first xs) [0..<length xs])"
    by (rule map_cong) (auto simp add: nth_append)
  have "first_occurrences (xs @ [x])
      = map ((!) (xs @ [x])) (filter (?first (xs @ [x])) [0..<length xs])
        @ (if x \<in> set xs then [] else [x])"
    by (simp add: first_occurrences_def)
  also have "\<dots> = first_occurrences xs @ (if x \<in> set xs then [] else [x])"
    unfolding f m by (simp add: first_occurrences_def)
  finally show ?case
    using snoc.IH by (simp add: new_Set_snoc)
qed

lemma reduceChunk_step:
  fixes n :: nat
  assumes n: "0 < n"
    and cc: "concat cs = xs"
    and le: "\<forall>c\<in>set cs. c \<noteq> [] \<and> length c \<le> n"
    and bl: "\<forall>c\<in>set (butlast cs). length c = n"
  shows "concat (reduceChunk (real n) cs x) = xs @ [x]
    \<and> (\<forall>c\<in>set (reduceChunk (real n) cs x). c \<noteq> [] \<and> length c \<le> n)
    \<and> (\<forall>c\<in>set (butlast (reduceChunk (real n) cs x)). length c = n)"
proof (cases cs rule: rev_cases)
  case Nil
  with n cc show ?thesis by (simp add: reduceChunk_Nil)
next
  case (snoc cs' c)
  from cc snoc have cc': "concat cs' @ c = xs" by simp
  from le snoc have le': "\<forall>d\<in>set cs'. d \<noteq> [] \<and> length d \<le> n" and c: "c \<noteq> []" "length c \<le> n"
    by simp_all
  from bl snoc have bl': "\<forall>d\<in>set cs'. length d = n" by simp
  show ?thesis
  proof (cases "n \<le> length c")
    case True
    with c have "length c = n" by simp
    with True cc' le' bl' c n show ?thesis
      unfolding snoc by (simp add: reduceChunk_snoc butlast_append)
  next
    case False
    with cc' le' bl' c n show ?thesis
      unfolding snoc by (simp add: reduceChunk_snoc butlast_append)
  qed
qed

lemma foldl_reduceChunk_inv:
  fixes n :: nat
  assumes "0 < n"
  shows "concat (foldl (reduceChunk (real n)) [] items) = items
    \<and> (\<forall>c\<in>set (foldl (reduceChunk (real n)) [] items). c \<noteq> [] \<and> length c \<le> n)
    \<and> (\<forall>c\<in>set (butlast (foldl (reduceChunk (real n)) [] items)). length c = n)"
proof (induction items rule: rev_induct)
  case Nil
  show ?case by simp
next
  case (snoc x xs)
  have step: "foldl (reduceChunk (real n)) [] (xs @ [x])
      = reduceChunk (real n) (foldl (reduceChunk (real n)) [] xs) x"
    by simp
  from snoc.IH have "concat (foldl (reduceChunk (real n)) [] xs) = xs"
    and "\<forall>c\<in>set (foldl (reduceChunk (real n)) [] xs). c \<noteq> [] \<and> length c \<le> n"
    and "\<forall>c\<in>set (butlast (foldl (reduceChunk (real n)) [] xs)). length c = n"
    by blast+
  then show ?case
    unfolding step by (rule reduceChunk_step [OF assms])
qed

text \<open>
  C1. For every list \<open>L\<close> and every positive integer \<open>s\<close>, \<^verbatim>\<open>uniq(L).reduce(reduceChunk(s), [])\<close>
  returns chunks whose concatenation is the distinct elements of \<open>L\<close> in first-occurrence
  order; every chunk has at most \<open>s\<close> elements, every chunk but the last has exactly
  \<open>s\<close>, and the empty list gives no chunk at all.
\<close>

theorem dedup_chunk_partition:
  fixes s :: nat
  assumes "0 < s"
  shows "\<exists>U cs. uniq get L None = Inr U \<and> chunk (real s) U = Inr cs
    \<and> concat cs = first_occurrences L
    \<and> (\<forall>c\<in>set cs. length c \<le> s)
    \<and> (\<forall>c\<in>set (butlast cs). length c = s)
    \<and> (L = [] \<longrightarrow> cs = [])"
proof -
  let ?cs = "foldl (reduceChunk (real s)) [] (new_Set L)"
  note inv = foldl_reduceChunk_inv [OF assms, of "new_Set L"]
  have u: "uniq get L None = Inr (new_Set L)" by (simp add: uniq_def)
  have ch: "chunk (real s) (new_Set L) = Inr ?cs" by (simp add: chunk_def)
  from inv have "concat ?cs = new_Set L" by (rule conjunct1)
  then have a: "concat ?cs = first_occurrences L"
    by (simp only: new_Set_first_occurrences)
  from inv have "\<forall>c\<in>set ?cs. c \<noteq> [] \<and> length c \<le> s" by (rule conjunct1 [OF conjunct2])
  then have b: "\<forall>c\<in>set ?cs. length c \<le> s" by blast
  from inv have c: "\<forall>c\<in>set (butlast ?cs). length c = s" by (rule conjunct2 [OF conjunct2])
  have d: "L = [] \<longrightarrow> ?cs = []" by (simp add: new_Set_def)
  show ?thesis
    by (rule exI [of _ "new_Set L"], rule exI [of _ ?cs]) (intro conjI u ch a b c d)
qed

theorem dedup_chunk_partition_witness:
  "0 < (2::nat) \<and> (\<exists>U cs. uniq js_get [JStr ''30'', JStr ''10'', JStr ''30'', JStr ''20'', JStr ''10''] None = Inr U
    \<and> chunk 2 U = Inr cs
    \<and> concat cs = [JStr ''30'', JStr ''10'', JStr ''20'']
    \<and> (\<forall>c\<in>set cs. length c \<le> 2)
    \<and> (\<forall>c\<in>set (butlast cs). length c = 2)
    \<and> cs = [[JStr ''30'', JStr ''10''], [JStr ''20'']])"
proof -
  let ?L = "[JStr ''30'', JStr ''10'', JStr ''30'', JStr ''20'', JStr ''10'']"
  have h: "0 < (2::nat)" by simp
  from dedup_chunk_partition [OF h, of js_get ?L]
  obtain U cs where f: "uniq js_get ?L None = Inr U"
    "chunk (real (2::nat)) U = Inr cs"
    "concat cs = first_occurrences ?L"
    "\<forall>c\<in>set cs. length c \<le> 2" "\<forall>c\<in>set (butlast cs). length c = 2"
    by blast
  from f(1) have U: "U = [JStr ''30'', JStr ''10'', JStr ''20'']"
    by (simp add: uniq_def new_Set_def Set_add_def)
  from f(2) have cs: "cs = [[JStr ''30'', JStr ''10''], [JStr ''20'']]"
    unfolding U by (simp add: chunk_def reduceChunk_def)
  have fo: "first_occurrences ?L = [JStr ''30'', JStr ''10'', JStr ''20'']"
    by (simp add: first_occurrences_def)
  from f h fo show ?thesis
    by (intro conjI exI [of _ U] exI [of _ cs]) (simp_all add: cs)
qed

section \<open>The chunker and its size\<close>

lemma reduceChunk_ceiling: "reduceChunk s total0 item = reduceChunk (of_int \<lceil>s\<rceil>) total0 item"
proof -
  have "(s \<le> real n) = (real_of_int \<lceil>s\<rceil> \<le> real n)" for n
  proof -
    have "(real_of_int \<lceil>s\<rceil> \<le> real n) = (\<lceil>s\<rceil> \<le> int n)" by linarith
    also have "\<dots> = (s \<le> real n)" by (simp add: ceiling_le_iff)
    finally show ?thesis by simp
  qed
  then show ?thesis by (simp add: reduceChunk_def)
qed

lemma concat_reduceChunk: "concat (reduceChunk s cs x) = concat cs @ [x]"
  by (cases cs rule: rev_cases) (simp_all add: reduceChunk_Nil reduceChunk_snoc)

lemma concat_foldl_reduceChunk: "concat (foldl (reduceChunk s) [] items) = items"
  by (induction items rule: rev_induct) (simp_all add: concat_reduceChunk)

lemma foldl_reduceChunk_small:
  assumes "s \<le> 1"
  shows "foldl (reduceChunk s) [] items = map (\<lambda>x. [x]) items"
proof (induction items rule: rev_induct)
  case Nil
  show ?case by simp
next
  case (snoc x xs)
  show ?case
  proof (cases xs rule: rev_cases)
    case Nil
    then show ?thesis by (simp add: reduceChunk_Nil)
  next
    case (snoc ys y)
    with snoc.IH assms show ?thesis by (simp add: reduceChunk_snoc)
  qed
qed

text \<open>
  C6, as the code has it. The chunker does not check its size and never fails: for every
  size, also a non-positive or a non-integer one, it returns chunks whose concatenation
  is the input. A size of at most 1 gives one chunk for each element, and a size that
  is no integer gives the chunks of the next integer above it.
\<close>

theorem chunk_never_fails:
  fixes items :: "'a list"
  shows "(\<exists>cs. chunk chunksize items = Inr cs \<and> concat cs = items)
   \<and> (chunksize \<le> 1 \<longrightarrow> chunk chunksize items = Inr (map (\<lambda>x. [x]) items))
   \<and> chunk chunksize items = chunk (of_int \<lceil>chunksize\<rceil>) items"
proof (intro conjI impI)
  show "\<exists>cs. chunk chunksize items = Inr cs \<and> concat cs = items"
    by (simp add: chunk_def concat_foldl_reduceChunk)
  show "chunk chunksize items = Inr (map (\<lambda>x. [x]) items)" if "chunksize \<le> 1"
    using that by (simp add: chunk_def foldl_reduceChunk_small)
  have "reduceChunk chunksize = (reduceChunk (of_int \<lceil>chunksize\<rceil>) :: 'a list list \<Rightarrow> 'a \<Rightarrow> 'a list list)"
    by (intro ext) (rule reduceChunk_ceiling)
  then show "chunk chunksize items = chunk (of_int \<lceil>chunksize\<rceil>) items"
    by (simp add: chunk_def)
qed

theorem chunk_never_fails_witness:
  "(0::real) \<le> 1 \<and> chunk 0 [JStr ''a'', JStr ''b'', JStr ''c''] = Inr [[JStr ''a''], [JStr ''b''], [JStr ''c'']]
   \<and> chunk (5 / 2) [JStr ''a'', JStr ''b'', JStr ''c'', JStr ''d''] = chunk 3 [JStr ''a'', JStr ''b'', JStr ''c'', JStr ''d'']"
proof -
  have c: "\<lceil>5 / 2 :: real\<rceil> = 3" by linarith
  from chunk_never_fails [of 0 "[JStr ''a'', JStr ''b'', JStr ''c'']"]
    chunk_never_fails [of "5 / 2" "[JStr ''a'', JStr ''b'', JStr ''c'', JStr ''d'']"]
  show ?thesis by (simp add: c)
qed

text \<open>
  C6 as stated fails: with the sizes 0, -2 and 3/2 the chunker does not fail, it returns chunks.
\<close>

theorem chunk_invalid_size_counterexample:
  "\<not> isl (chunk 0 [JStr ''a'', JStr ''b''])
   \<and> chunk 0 [JStr ''a'', JStr ''b''] = Inr [[JStr ''a''], [JStr ''b'']]
   \<and> chunk (- 2) [JStr ''a'', JStr ''b''] = Inr [[JStr ''a''], [JStr ''b'']]
   \<and> chunk (3 / 2) [JStr ''a'', JStr ''b'', JStr ''c''] = Inr [[JStr ''a'', JStr ''b''], [JStr ''c'']]"
  by (simp add: chunk_def reduceChunk_def)

section \<open>The sequential executor\<close>

lemma foldl_promiseReduce_rejected: "foldl promiseReduce (Inl err, w) funcs = (Inl err, w)"
  by (induction funcs) (simp_all add: promiseReduce_def)

text \<open>
  C2. When the tasks before \<open>func\<close> have all resolved and \<open>func\<close>, called with their values,
  rejects with \<open>err\<close>, the series rejects with \<open>err\<close>: the outcome carries no result of
  the earlier tasks, and the world is the one \<open>func\<close> left, whatever the tasks after it
  would do to it: none of them is called.
\<close>

theorem promiseSeries_all_or_nothing:
  assumes "promiseSeries before w = (Inr resolves, w1)"
    and "func resolves w1 = (Inl err, w2)"
  shows "promiseSeries (before @ func # after) w = (Inl err, w2)"
proof -
  have "promiseSeries (before @ func # after) w
      = foldl promiseReduce (promiseReduce (Inr resolves, w1) func) after"
    using assms(1) by (simp add: promiseSeries_def)
  also have "promiseReduce (Inr resolves, w1) func = (Inl err, w2)"
    using assms(2) by (simp add: promiseReduce_def promiseConcat_def)
  finally show ?thesis
    by (simp add: foldl_promiseReduce_rejected)
qed

text \<open>Three tasks that log their call in the world; the second rejects, the third is not in the log.\<close>

theorem promiseSeries_all_or_nothing_witness:
  "promiseSeries [(\<lambda>resolves w. (Inr (JStr ''r0''), w @ [''t0''])),
                  (\<lambda>resolves w. (Inl ''e1'', w @ [''t1''])),
                  (\<lambda>resolves w. (Inr (JStr ''r2''), w @ [''t2'']))] []
     = (Inl ''e1'', [''t0'', ''t1''])"
proof -
  let ?t0 = "\<lambda>(resolves :: jsval list) (w :: string list). (Inr (JStr ''r0'') :: string + jsval, w @ [''t0''])"
  let ?t1 = "\<lambda>(resolves :: jsval list) (w :: string list). (Inl ''e1'' :: string + jsval, w @ [''t1''])"
  let ?t2 = "\<lambda>(resolves :: jsval list) (w :: string list). (Inr (JStr ''r2'') :: string + jsval, w @ [''t2''])"
  have a: "promiseSeries [?t0] [] = (Inr [JStr ''r0''], [''t0''])"
    by (simp add: promiseSeries_def promiseReduce_def promiseConcat_def concat_bound_def)
  from promiseSeries_all_or_nothing [of "[?t0]" "[]" "[JStr ''r0'']" "[''t0'']" ?t1 "''e1''" "[''t0'', ''t1'']" "[?t2]"] a
  show ?thesis by simp
qed

lemma promiseSeries_last:
  assumes "promiseSeries (funcs @ [func]) w = (Inr responses, w')"
  shows "\<exists>rs w1 v. promiseSeries funcs w = (Inr rs, w1) \<and> func rs w1 = (Inr v, w')
    \<and> responses = concat_bound rs v"
proof -
  have step: "promiseSeries (funcs @ [func]) w = promiseReduce (promiseSeries funcs w) func"
    by (simp add: promiseSeries_def)
  obtain chain w1 where c: "promiseSeries funcs w = (chain, w1)" by (cases "promiseSeries funcs w")
  with assms step show ?thesis
    by (cases chain) (auto simp add: promiseReduce_def promiseConcat_def split: prod.splits sum.splits)
qed

lemma promiseSeries_resolved_all:
  assumes "promiseSeries funcs w = (Inr responses, w')"
    and "\<forall>func\<in>set funcs. \<forall>rs w0 v w1. func rs w0 = (Inr v, w1) \<longrightarrow> Q v \<and> (\<forall>xs. v \<noteq> JArr xs)"
  shows "\<forall>r\<in>set responses. Q r"
  using assms
proof (induction funcs arbitrary: responses w' rule: rev_induct)
  case Nil
  then show ?case by (simp add: promiseSeries_def)
next
  case (snoc func funcs)
  have step: "promiseSeries (funcs @ [func]) w = promiseReduce (promiseSeries funcs w) func"
    by (simp add: promiseSeries_def)
  obtain chain w0 where c: "promiseSeries funcs w = (chain, w0)" by (cases "promiseSeries funcs w")
  show ?case
  proof (cases chain)
    case (Inl err)
    with c step snoc.prems(1) show ?thesis by (simp add: promiseReduce_def)
  next
    case (Inr rs)
    with c step snoc.prems(1) have pc: "promiseConcat func rs w0 = (Inr responses, w')"
      by (simp add: promiseReduce_def)
    then obtain v where f: "func rs w0 = (Inr v, w')" and r: "responses = concat_bound rs v"
      by (auto simp add: promiseConcat_def split: prod.splits sum.splits)
    from snoc.prems(2) f have v: "Q v" "\<forall>xs. v \<noteq> JArr xs" by auto
    from v(2) r have r': "responses = rs @ [v]"
      by (cases v) (simp_all add: concat_bound_def)
    from c Inr snoc.prems(2) have "\<forall>r\<in>set rs. Q r"
      by (intro snoc.IH [of rs w0]) auto
    with v(1) r' show ?thesis by simp
  qed
qed

lemma promiseSeries_length:
  assumes "promiseSeries funcs w = (Inr responses, w')"
    and "\<forall>func\<in>set funcs. \<forall>rs w0 v w1. func rs w0 = (Inr v, w1) \<longrightarrow> (\<forall>xs. v \<noteq> JArr xs)"
  shows "length responses = length funcs"
  using assms
proof (induction funcs arbitrary: responses w' rule: rev_induct)
  case Nil
  then show ?case by (simp add: promiseSeries_def)
next
  case (snoc func funcs)
  from promiseSeries_last [OF snoc.prems(1)] obtain rs w1 v where
    r: "promiseSeries funcs w = (Inr rs, w1)" and f: "func rs w1 = (Inr v, w')"
    and c: "responses = concat_bound rs v" by blast
  from snoc.prems(2) f have "\<forall>xs. v \<noteq> JArr xs" by auto
  with c have c': "responses = rs @ [v]" by (cases v) (simp_all add: concat_bound_def)
  from snoc.prems(2) have "\<forall>func\<in>set funcs. \<forall>rs w0 v w1. func rs w0 = (Inr v, w1) \<longrightarrow> (\<forall>xs. v \<noteq> JArr xs)"
    by auto
  from snoc.IH [OF r this] c' show ?case by simp
qed

lemma promiseSeries_prefix:
  assumes "promiseSeries (funcs @ later) w = (Inr responses, w')"
    and "\<forall>func\<in>set (funcs @ later). \<forall>rs w0 v w1. func rs w0 = (Inr v, w1) \<longrightarrow> (\<forall>xs. v \<noteq> JArr xs)"
  shows "\<exists>w1. promiseSeries funcs w = (Inr (take (length funcs) responses), w1)"
  using assms
proof (induction later arbitrary: responses w' rule: rev_induct)
  case Nil
  from promiseSeries_length [of funcs w responses w'] Nil have "length responses = length funcs"
    by simp
  with Nil.prems(1) show ?case by simp
next
  case (snoc func later)
  from snoc.prems(1) have "promiseSeries ((funcs @ later) @ [func]) w = (Inr responses, w')" by simp
  from promiseSeries_last [OF this] obtain rs w1 v where
    r: "promiseSeries (funcs @ later) w = (Inr rs, w1)" and f: "func rs w1 = (Inr v, w')"
    and c: "responses = concat_bound rs v" by blast
  from snoc.prems(2) f have "\<forall>xs. v \<noteq> JArr xs" by auto
  with c have c': "responses = rs @ [v]" by (cases v) (simp_all add: concat_bound_def)
  from snoc.prems(2) have na: "\<forall>func\<in>set (funcs @ later). \<forall>rs w0 v w1. func rs w0 = (Inr v, w1) \<longrightarrow> (\<forall>xs. v \<noteq> JArr xs)"
    by auto
  from promiseSeries_length [OF r na] have l: "length rs = length funcs + length later" by simp
  from snoc.IH [OF r na] obtain w2 where
    p: "promiseSeries funcs w = (Inr (take (length funcs) rs), w2)" by blast
  from l c' p show ?case by auto
qed

text \<open>
  When no task resolves with an array, the result has one entry for each task, and the
  entry at the index of a task is the value the task resolved with when it was called
  with the entries before it.
\<close>

lemma promiseSeries_index_aligned:
  assumes "promiseSeries (before @ func # after) w = (Inr responses, w')"
    and "\<forall>func\<in>set (before @ func # after). \<forall>rs w0 v w1. func rs w0 = (Inr v, w1) \<longrightarrow> (\<forall>xs. v \<noteq> JArr xs)"
  shows "length responses = length (before @ func # after)
    \<and> (\<exists>w1 w2. promiseSeries before w = (Inr (take (length before) responses), w1)
          \<and> func (take (length before) responses) w1 = (Inr (responses ! length before), w2))"
proof -
  let ?n = "length before"
  from promiseSeries_length [OF assms] have l: "length responses = length (before @ func # after)" .
  then have lb: "?n < length responses" by simp
  from assms have "promiseSeries ((before @ [func]) @ after) w = (Inr responses, w')"
    and "\<forall>func\<in>set ((before @ [func]) @ after). \<forall>rs w0 v w1. func rs w0 = (Inr v, w1) \<longrightarrow> (\<forall>xs. v \<noteq> JArr xs)"
    by simp_all
  from promiseSeries_prefix [OF this] obtain w2 where
    p: "promiseSeries (before @ [func]) w = (Inr (take (Suc ?n) responses), w2)"
    by auto
  from promiseSeries_last [OF p] obtain rs w1 v where
    r: "promiseSeries before w = (Inr rs, w1)" and f: "func rs w1 = (Inr v, w2)"
    and c: "take (Suc ?n) responses = concat_bound rs v" by blast
  from assms(2) f have "\<forall>xs. v \<noteq> JArr xs" by auto
  with c have "take (Suc ?n) responses = rs @ [v]"
    by (cases v) (simp_all add: concat_bound_def)
  with lb have "take ?n responses @ [responses ! ?n] = rs @ [v]"
    by (simp add: take_Suc_conv_app_nth)
  then have "rs = take ?n responses" "v = responses ! ?n" by simp_all
  with r f l show ?thesis by blast
qed

text \<open>
  C3. The result is not index-aligned with the tasks when a task resolves with an array:
  \<^verbatim>\<open>concat\<close> appends the elements of the array, not the array. Two tasks that resolve
  with \<^verbatim>\<open>[1, 2]\<close> and \<^verbatim>\<open>[3]\<close> give the three entries \<^verbatim>\<open>[1, 2, 3]\<close>, where the claim
  has the two entries \<^verbatim>\<open>[[1, 2], [3]]\<close>.
\<close>

theorem promiseSeries_flattens_arrays:
  "promiseSeries [(\<lambda>resolves w. (Inr (JArr [JNum 1, JNum 2]), w)),
                  (\<lambda>resolves w. (Inr (JArr [JNum 3]), w))] ()
     = (Inr [JNum 1, JNum 2, JNum 3] :: string + jsval list, ())"
  by (simp add: promiseSeries_def promiseReduce_def promiseConcat_def concat_bound_def)

section \<open>Keys that plain objects inherit\<close>

text \<open>
  \<^verbatim>\<open>uniq\<close> with a filter, \<^verbatim>\<open>groupBy\<close> and
  \<^verbatim>\<open>indexBy\<close> keep their keys as the property names of an object
  made by \<^verbatim>\<open>{}\<close>. Such an object inherits twelve names from
  \<^verbatim>\<open>Object.prototype\<close>; for keys outside these names the three
  functions do what a dictionary does, for keys among them they do not.
\<close>

subsection \<open>uniq with a filter\<close>

lemma first_from_Cons:
  "map ((!) (x # xs)) (filter (\<lambda>j. (k # ks) ! j \<notin> S \<union> set (take j (k # ks))) [0..<length (x # xs)])
     = (if k \<in> S then [] else [x])
       @ map ((!) xs) (filter (\<lambda>j. ks ! j \<notin> insert k S \<union> set (take j ks)) [0..<length xs])"
proof -
  have "(\<lambda>j. (k # ks) ! Suc j \<notin> S \<union> set (take (Suc j) (k # ks)))
      = (\<lambda>j. ks ! j \<notin> insert k S \<union> set (take j ks))"
    by (intro ext) auto
  then show ?thesis
    by (simp add: filter_upt_Suc comp_def del: upt_Suc Un_insert_left Un_insert_right)
qed

lemma uniq_filter_first_per_key:
  assumes "uniq_filter get f array valueList i items = Inr kept"
    and "uniq_keys get f array i items = Inr ks"
    and "set ks \<inter> set object_prototype_names = {}"
    and "\<forall>k. k \<notin> set object_prototype_names \<longrightarrow> truthy (obj_get valueList k) = (k \<in> S)"
  shows "kept = map ((!) items) (filter (\<lambda>j. ks ! j \<notin> S \<union> set (take j ks)) [0..<length items])"
  using assms
proof (induction items arbitrary: valueList i ks kept S)
  case Nil
  then show ?case by simp
next
  case (Cons item rest)
  from Cons.prems(2) obtain v ks' where
    v: "(case f of FilterFunction fn \<Rightarrow> Inr (fn item i array) | FilterString name \<Rightarrow> get item name) = Inr v"
    and ks': "uniq_keys get f array (Suc i) rest = Inr ks'" and ks: "ks = to_string v # ks'"
    by (auto split: sum.splits)
  let ?k = "to_string v"
  from Cons.prems(3) ks have safe: "?k \<notin> set object_prototype_names"
    and safe': "set ks' \<inter> set object_prototype_names = {}" by auto
  from Cons.prems(4) safe have seen: "truthy (obj_get valueList ?k) = (?k \<in> S)" by blast
  show ?case
  proof (cases "?k \<in> S")
    case True
    with seen v Cons.prems(1) have r: "uniq_filter get f array valueList (Suc i) rest = Inr kept"
      by simp
    from True have "insert ?k S = S" by auto
    with Cons.IH [OF r ks' safe' Cons.prems(4)] True show ?thesis
      unfolding ks first_from_Cons by simp
  next
    case False
    let ?vl = "obj_set valueList ?k (JBool True)"
    from False seen v Cons.prems(1) obtain kept' where
      r: "uniq_filter get f array ?vl (Suc i) rest = Inr kept'" and kept: "kept = item # kept'"
      by (auto split: sum.splits)
    have vl: "\<forall>k. k \<notin> set object_prototype_names \<longrightarrow> truthy (obj_get ?vl k) = (k \<in> insert ?k S)"
      using Cons.prems(4) safe_not_proto [OF safe]
      by (auto simp add: obj_get_def obj_set_def update_conv')
    from Cons.IH [OF r ks' safe' vl] False kept show ?thesis
      unfolding ks first_from_Cons by simp
  qed
qed

text \<open>
  When no derived key is an inherited name, \<^verbatim>\<open>uniq\<close> with a
  filter returns the first item of every key, in the order of the input.
\<close>

lemma uniq_first_per_key:
  assumes "uniq get arr (Some f) = Inr kept"
    and "uniq_keys get f arr 0 arr = Inr ks"
    and "set ks \<inter> set object_prototype_names = {}"
  shows "kept = first_per_key ks arr"
proof -
  from assms(1) have u: "uniq_filter get f arr [] 0 arr = Inr kept" by (simp add: uniq_def)
  have "\<forall>k. k \<notin> set object_prototype_names \<longrightarrow> truthy (obj_get [] k) = (k \<in> {})"
    by (simp add: obj_get_def)
  from uniq_filter_first_per_key [OF u assms(2) assms(3) this] show ?thesis
    by (simp add: first_per_key_def)
qed

text \<open>
  C7. \<^verbatim>\<open>uniq\<close> with a filter does not keep the first occurrence of every key: the
  values are stored as properties of the plain object \<^verbatim>\<open>{}\<close>, where a key that is the
  name of a member of \<^verbatim>\<open>Object.prototype\<close> reads as present from the start. The item
  with such a key is dropped at its first occurrence. Without a filter the same value
  is kept.
\<close>

theorem uniq_drops_inherited_keys:
  "uniq js_get [JObj [(''name'', JStr ''constructor'')], JObj [(''name'', JStr ''a'')]] (Some (FilterString ''name''))
     = Inr [JObj [(''name'', JStr ''a'')]]
   \<and> uniq js_get [JStr ''toString'', JStr ''a''] (Some (FilterFunction (\<lambda>item i array. item)))
     = Inr [JStr ''a'']
   \<and> uniq js_get [JStr ''toString'', JStr ''a''] None = Inr [JStr ''toString'', JStr ''a'']"
  by (simp add: uniq_def js_get_def obj_get_def obj_set_def object_prototype_names_def
      new_Set_def Set_add_def)

subsection \<open>indexBy\<close>

lemma indexBy_reduce_first_wins:
  assumes "indexBy_reduce key g i items = Inr g'"
    and "derived_keys key i items = Inr ks"
    and "set ks \<inter> set object_prototype_names = {}"
    and "JUndefined \<notin> set items"
    and "JUndefined \<notin> snd ` set g"
  shows "map_of g' k = (case map_of g k of Some x \<Rightarrow> Some x | None \<Rightarrow> map_of (zip ks items) k)"
  using assms
proof (induction items arbitrary: g i ks)
  case Nil
  then show ?case by (auto split: option.splits)
next
  case (Cons item rest)
  from Cons.prems(2) obtain v ks' where v: "derive_key key item i = Inr v"
    and ks': "derived_keys key (Suc i) rest = Inr ks'" and ks: "ks = to_string v # ks'"
    by (auto split: sum.splits)
  let ?k = "to_string v"
  from Cons.prems(3) ks have safe: "?k \<notin> set object_prototype_names"
    and safe': "set ks' \<inter> set object_prototype_names = {}" by auto
  from Cons.prems(4) have item: "item \<noteq> JUndefined" and rest: "JUndefined \<notin> set rest" by auto
  have und: "(obj_get g ?k = JUndefined) = (map_of g ?k = None)"
  proof (cases "map_of g ?k")
    case None
    with safe show ?thesis by (simp add: obj_get_safe)
  next
    case (Some x)
    then have "(?k, x) \<in> set g" by (rule map_of_SomeD)
    then have "x \<in> snd ` set g" by force
    with Cons.prems(5) have "x \<noteq> JUndefined" by blast
    with Some safe show ?thesis by (simp add: obj_get_safe)
  qed
  show ?case
  proof (cases "map_of g ?k")
    case None
    let ?g = "obj_set g ?k item"
    from None und v Cons.prems(1) have r: "indexBy_reduce key ?g (Suc i) rest = Inr g'" by simp
    have gs: "?g = AList.update ?k item g"
      using safe_not_proto [OF safe] by (simp add: obj_set_def)
    have "snd ` set ?g \<subseteq> insert item (snd ` set g)"
      unfolding gs by (induction g) auto
    with item Cons.prems(5) have "JUndefined \<notin> snd ` set ?g" by auto
    from Cons.IH [OF r ks' safe' rest this]
    have "map_of g' k = (case map_of ?g k of Some x \<Rightarrow> Some x | None \<Rightarrow> map_of (zip ks' rest) k)" .
    with None show ?thesis
      by (auto simp add: ks gs update_conv' split: option.splits)
  next
    case (Some x)
    with und v Cons.prems(1) have r: "indexBy_reduce key g (Suc i) rest = Inr g'" by simp
    from Cons.IH [OF r ks' safe' rest Cons.prems(5)] Some show ?thesis
      by (auto simp add: ks split: option.splits)
  qed
qed

text \<open>
  When no derived key is an inherited name (and no item is
  \<^verbatim>\<open>undefined\<close>), the mapping \<^verbatim>\<open>indexBy\<close>
  returns has, under every key, the first item of that key.
\<close>

lemma indexBy_first_wins:
  assumes "indexBy (JArr items) key = Inr g"
    and "derived_keys key 0 items = Inr ks"
    and "set ks \<inter> set object_prototype_names = {}"
    and "JUndefined \<notin> set items"
  shows "map_of g = map_of (zip ks items)"
proof
  fix k
  from assms(1) have "indexBy_reduce key [] 0 items = Inr g" by (simp add: indexBy_def)
  from indexBy_reduce_first_wins [OF this assms(2) assms(3) assms(4), of k]
  show "map_of g k = map_of (zip ks items) k" by simp
qed

text \<open>
  C5. \<^verbatim>\<open>indexBy\<close> does not keep the first item of every key: of two items with the key
  \<^verbatim>\<open>constructor\<close> neither is in the mapping, since \<^verbatim>\<open>group['constructor']\<close> is not
  \<^verbatim>\<open>undefined\<close> on the empty object. Of two items with the key \<^verbatim>\<open>x\<close> the first is.
\<close>

theorem indexBy_drops_inherited_keys:
  "indexBy (JArr [JObj [(''classid'', JStr ''constructor''), (''name'', JStr ''first'')],
                  JObj [(''classid'', JStr ''constructor''), (''name'', JStr ''second'')]])
      (KeyString ''classid'') = Inr []
   \<and> indexBy (JArr [JStr ''valueOf'']) (KeyFunction (\<lambda>item i. item)) = Inr []
   \<and> indexBy (JArr [JObj [(''id'', JStr ''x''), (''v'', JNum 1)],
                     JObj [(''id'', JStr ''x''), (''v'', JNum 2)]])
        (KeyString ''id'') = Inr [(''x'', JObj [(''id'', JStr ''x''), (''v'', JNum 1)])]"
  by (simp add: indexBy_def js_get_def obj_get_def obj_set_def object_prototype_names_def)

subsection \<open>The join\<close>

lemma derived_keys_records:
  "derived_keys (KeyString field) i (map JObj rs) = Inr (map (record_key field) rs)"
  by (induction rs arbitrary: i) (simp_all add: js_get_def record_key_def)

lemma groupBy_reduce_records:
  assumes "\<forall>r\<in>set rs. record_key field r \<notin> set object_prototype_names"
    and "\<forall>k v. map_of g k = Some v \<longrightarrow> (\<exists>xs. v = JArr xs)"
  shows "\<exists>g'. groupBy_reduce (KeyString field) g i (map JObj rs) = Inr g'
    \<and> (\<forall>k. map_of g' k =
          (if k \<in> record_key field ` set rs
           then Some (JArr ((case map_of g k of Some (JArr xs) \<Rightarrow> xs | _ \<Rightarrow> [])
                        @ map JObj (filter (\<lambda>r. record_key field r = k) rs)))
           else map_of g k))
    \<and> (distinct (map fst g) \<longrightarrow> distinct (map fst g'))"
  using assms
proof (induction rs arbitrary: g i)
  case Nil
  then show ?case by simp
next
  case (Cons r rs)
  let ?k = "record_key field r"
  from Cons.prems(1) have safe: "?k \<notin> set object_prototype_names"
    and safe': "\<forall>r\<in>set rs. record_key field r \<notin> set object_prototype_names" by auto
  have d: "js_get (JObj r) field = Inr (obj_get r field)"
    by (simp add: js_get_def)
  have k: "to_string (obj_get r field) = ?k" by (simp add: record_key_def)
  have np: "?k \<noteq> ''__proto__''" using safe by (rule safe_not_proto)
  let ?old = "case map_of g ?k of Some (JArr xs) \<Rightarrow> xs | _ \<Rightarrow> []"
  let ?g = "obj_set g ?k (JArr (?old @ [JObj r]))"
  have step: "groupBy_reduce (KeyString field) g i (JObj r # map JObj rs)
      = groupBy_reduce (KeyString field) ?g (Suc i) (map JObj rs)"
  proof (cases "map_of g ?k")
    case None
    with safe show ?thesis by (simp add: d k obj_get_safe Let_def)
  next
    case (Some v)
    with Cons.prems(2) obtain xs where "v = JArr xs" by blast
    with Some safe show ?thesis by (simp add: d k obj_get_safe Let_def)
  qed
  have g: "map_of ?g = (map_of g)(?k \<mapsto> JArr (?old @ [JObj r]))"
    using np by (simp add: obj_set_def update_conv')
  have inv: "\<forall>k v. map_of ?g k = Some v \<longrightarrow> (\<exists>xs. v = JArr xs)"
    using Cons.prems(2) by (simp add: g)
  have dist: "distinct (map fst g) \<longrightarrow> distinct (map fst ?g)"
    using np by (simp add: obj_set_def distinct_update)
  from Cons.IH [OF safe' inv, of "Suc i"] obtain g' where
    r: "groupBy_reduce (KeyString field) ?g (Suc i) (map JObj rs) = Inr g'"
    and m: "\<forall>k. map_of g' k =
          (if k \<in> record_key field ` set rs
           then Some (JArr ((case map_of ?g k of Some (JArr xs) \<Rightarrow> xs | _ \<Rightarrow> [])
                        @ map JObj (filter (\<lambda>r. record_key field r = k) rs)))
           else map_of ?g k)"
    and dd: "distinct (map fst ?g) \<longrightarrow> distinct (map fst g')"
    by blast
  have "\<forall>k. map_of g' k =
          (if k \<in> record_key field ` set (r # rs)
           then Some (JArr ((case map_of g k of Some (JArr xs) \<Rightarrow> xs | _ \<Rightarrow> [])
                        @ map JObj (filter (\<lambda>r. record_key field r = k) (r # rs))))
           else map_of g k)"
  proof
    fix k
    have e: "filter (\<lambda>x. record_key field x = k) rs = []" if "k \<notin> record_key field ` set rs"
      using that by (auto simp add: filter_empty_conv)
    from m have mk: "map_of g' k =
          (if k \<in> record_key field ` set rs
           then Some (JArr ((case map_of ?g k of Some (JArr xs) \<Rightarrow> xs | _ \<Rightarrow> [])
                        @ map JObj (filter (\<lambda>r. record_key field r = k) rs)))
           else map_of ?g k)" by blast
    show "map_of g' k =
          (if k \<in> record_key field ` set (r # rs)
           then Some (JArr ((case map_of g k of Some (JArr xs) \<Rightarrow> xs | _ \<Rightarrow> [])
                        @ map JObj (filter (\<lambda>r. record_key field r = k) (r # rs))))
           else map_of g k)"
    proof (cases "k = ?k")
      case True
      show ?thesis
      proof (cases "?k \<in> record_key field ` set rs")
        case in_rs: True
        with True show ?thesis unfolding mk by (simp add: g)
      next
        case not_in: False
        with True have "k \<notin> record_key field ` set rs" by simp
        from e [OF this] True not_in show ?thesis unfolding mk by (simp add: g)
      qed
    next
      case False
      then have "?k \<noteq> k" by blast
      with False show ?thesis
        unfolding mk by (simp add: g)
    qed
  qed
  with r step dist dd show ?case by (simp only: list.map) blast
qed

lemma indexBy_reduce_records:
  "\<exists>g'. indexBy_reduce (KeyString field) g i (map JObj rs) = Inr g'"
  by (induction rs arbitrary: g i) (simp_all add: js_get_def)

lemma indexBy_records:
  assumes "\<forall>r\<in>set rs. record_key field r \<notin> set object_prototype_names"
  shows "\<exists>idx. indexBy (JArr (map JObj rs)) (KeyString field) = Inr idx
    \<and> (\<forall>k. map_of idx k = map_option JObj (find (\<lambda>r. record_key field r = k) rs))"
proof -
  from indexBy_reduce_records [of field "[]" 0 rs] obtain idx where
    idx: "indexBy (JArr (map JObj rs)) (KeyString field) = Inr idx"
    by (auto simp add: indexBy_def)
  have safe: "set (map (record_key field) rs) \<inter> set object_prototype_names = {}"
    using assms by auto
  have und: "JUndefined \<notin> set (map JObj rs)" by auto
  from indexBy_first_wins [OF idx derived_keys_records safe und]
  have m: "map_of idx = map_of (zip (map (record_key field) rs) (map JObj rs))" .
  have "map_of (zip (map (record_key field) rs) (map JObj rs)) k
      = map_option JObj (find (\<lambda>r. record_key field r = k) rs)" for k
    by (induction rs) auto
  with idx m show ?thesis by simp
qed

lemma table_reduce_groups:
  assumes "distinct (map fst es)" and "''__proto__'' \<notin> fst ` set es"
    and "\<forall>p\<in>set es. \<exists>idx. indexBy (snd p) (KeyString inner) = Inr idx"
  shows "\<exists>t'. table_reduce inner t es = Inr t'
    \<and> (\<forall>k. map_of t' k =
          (case map_of es k of
             Some v \<Rightarrow> Some (JObj (projr (indexBy v (KeyString inner))))
           | None \<Rightarrow> map_of t k))"
  using assms
proof (induction es arbitrary: t)
  case Nil
  then show ?case by simp
next
  case (Cons p es)
  from Cons.prems(3) obtain idx where idx: "indexBy (snd p) (KeyString inner) = Inr idx" by auto
  from Cons.prems(2) have np: "fst p \<noteq> ''__proto__''" by auto
  from Cons.prems(1) have fresh: "map_of es (fst p) = None"
    by (simp add: map_of_eq_None_iff)
  have "distinct (map fst es)" "''__proto__'' \<notin> fst ` set es"
    "\<forall>p\<in>set es. \<exists>idx. indexBy (snd p) (KeyString inner) = Inr idx"
    using Cons.prems by auto
  from Cons.IH [OF this, of "obj_set t (fst p) (JObj idx)"] obtain t' where
    t': "table_reduce inner (obj_set t (fst p) (JObj idx)) es = Inr t'"
    and m: "\<forall>k. map_of t' k =
          (case map_of es k of
             Some v \<Rightarrow> Some (JObj (projr (indexBy v (KeyString inner))))
           | None \<Rightarrow> map_of (obj_set t (fst p) (JObj idx)) k)"
    by blast
  have "map_of t' k =
          (case map_of (p # es) k of
             Some v \<Rightarrow> Some (JObj (projr (indexBy v (KeyString inner))))
           | None \<Rightarrow> map_of t k)" for k
  proof (cases "k = fst p")
    case True
    with m fresh idx np show ?thesis
      by (cases p) (simp add: obj_set_def update_conv')
  next
    case False
    with m np show ?thesis
      by (cases p) (auto simp add: obj_set_def update_conv' split: option.splits)
  qed
  with t' idx show ?case by simp
qed

lemma description_table_records:
  assumes "\<forall>d\<in>set ds. record_key outer d \<notin> set object_prototype_names
                      \<and> record_key inner d \<notin> set object_prototype_names"
  shows "\<exists>table. description_table (JArr (map JObj ds)) outer inner = Inr table
    \<and> (\<forall>k1. k1 \<notin> record_key outer ` set ds \<longrightarrow> map_of table k1 = None)
    \<and> (\<forall>k1. k1 \<in> record_key outer ` set ds \<longrightarrow>
          (\<exists>idx. map_of table k1 = Some (JObj idx)
             \<and> (\<forall>k2. map_of idx k2
                    = map_option JObj (find (\<lambda>d. record_key outer d = k1 \<and> record_key inner d = k2) ds))))"
proof -
  let ?group = "\<lambda>k. filter (\<lambda>d. record_key outer d = k) ds"
  from assms have so: "\<forall>d\<in>set ds. record_key outer d \<notin> set object_prototype_names" by blast
  have "\<forall>k v. map_of ([] :: obj) k = Some v \<longrightarrow> (\<exists>xs. v = JArr xs)" by simp
  from groupBy_reduce_records [OF so this, of 0] obtain groups where
    g: "groupBy (JArr (map JObj ds)) (KeyString outer) = Inr groups"
    and gm: "\<forall>k. map_of groups k
          = (if k \<in> record_key outer ` set ds then Some (JArr (map JObj (?group k))) else None)"
    and gd: "distinct (map fst groups)"
    by (auto simp add: groupBy_def)
  let ?es = "own_entries groups"
  have ed: "distinct (map fst ?es)" using gd by (rule distinct_own_entries)
  have em: "map_of ?es = map_of groups" using gd by (rule map_of_own_entries)
  have keys: "fst ` set ?es \<subseteq> record_key outer ` set ds"
  proof
    fix k
    assume "k \<in> fst ` set ?es"
    then have "map_of groups k \<noteq> None"
      by (simp add: set_own_entries map_of_eq_None_iff)
    with gm show "k \<in> record_key outer ` set ds" by (auto split: if_splits)
  qed
  have np: "''__proto__'' \<notin> fst ` set ?es"
  proof
    assume "''__proto__'' \<in> fst ` set ?es"
    with keys have "''__proto__'' \<in> record_key outer ` set ds" by blast
    then obtain d where "d \<in> set ds" and "record_key outer d = ''__proto__''" by auto
    with so have "''__proto__'' \<notin> set object_prototype_names" by force
    then show False by (simp add: object_prototype_names_def)
  qed
  have grp: "indexBy (JArr (map JObj (?group k))) (KeyString inner) = Inr idx
      \<Longrightarrow> map_of idx k2 = map_option JObj (find (\<lambda>d. record_key outer d = k \<and> record_key inner d = k2) ds)"
    for k idx k2
  proof -
    assume a: "indexBy (JArr (map JObj (?group k))) (KeyString inner) = Inr idx"
    from assms have "\<forall>r\<in>set (?group k). record_key inner r \<notin> set object_prototype_names" by auto
    from indexBy_records [OF this] a show ?thesis by (auto simp add: find_filter_conj)
  qed
  have ex: "\<exists>idx. indexBy (JArr (map JObj (?group k))) (KeyString inner) = Inr idx" for k
  proof -
    from assms have "\<forall>r\<in>set (?group k). record_key inner r \<notin> set object_prototype_names" by auto
    from indexBy_records [OF this] show ?thesis by blast
  qed
  have vals: "\<forall>p\<in>set ?es. \<exists>idx. indexBy (snd p) (KeyString inner) = Inr idx"
  proof
    fix p
    assume "p \<in> set ?es"
    then have "map_of ?es (fst p) = Some (snd p)" using ed by simp
    then have "map_of groups (fst p) = Some (snd p)" by (simp add: em)
    with gm have "snd p = JArr (map JObj (?group (fst p)))" by (auto split: if_splits)
    with ex show "\<exists>idx. indexBy (snd p) (KeyString inner) = Inr idx" by simp
  qed
  from table_reduce_groups [OF ed np vals, of "[]"] obtain table where
    t: "table_reduce inner [] ?es = Inr table"
    and tm: "\<forall>k. map_of table k =
          (case map_of ?es k of
             Some v \<Rightarrow> Some (JObj (projr (indexBy v (KeyString inner))))
           | None \<Rightarrow> map_of [] k)"
    by blast
  have dt: "description_table (JArr (map JObj ds)) outer inner = Inr table"
    using g t by (simp add: description_table_def then_do_def)
  have none: "\<forall>k1. k1 \<notin> record_key outer ` set ds \<longrightarrow> map_of table k1 = None"
    using tm gm by (simp add: em)
  have some: "\<forall>k1. k1 \<in> record_key outer ` set ds \<longrightarrow>
          (\<exists>idx. map_of table k1 = Some (JObj idx)
             \<and> (\<forall>k2. map_of idx k2
                    = map_option JObj (find (\<lambda>d. record_key outer d = k1 \<and> record_key inner d = k2) ds)))"
  proof (intro allI impI)
    fix k1
    assume k1: "k1 \<in> record_key outer ` set ds"
    from ex [of k1] obtain idx where
      idx: "indexBy (JArr (map JObj (?group k1))) (KeyString inner) = Inr idx" by blast
    from tm gm k1 idx have "map_of table k1 = Some (JObj idx)" by (simp add: em)
    with grp [OF idx] show "\<exists>idx. map_of table k1 = Some (JObj idx)
             \<and> (\<forall>k2. map_of idx k2
                    = map_option JObj (find (\<lambda>d. record_key outer d = k1 \<and> record_key inner d = k2) ds))"
      by blast
  qed
  from dt none some show ?thesis by blast
qed

lemma table_lookup_records:
  assumes "\<forall>d\<in>set ds. record_key outer d \<notin> set object_prototype_names
                      \<and> record_key inner d \<notin> set object_prototype_names"
    and "description_table (JArr (map JObj ds)) outer inner = Inr table"
    and "record_key outer item \<notin> set object_prototype_names"
    and "record_key inner item \<notin> set object_prototype_names"
  shows "table_lookup builtin table outer inner (JObj item)
    = Inr (case matching outer inner ds item of Some d \<Rightarrow> JObj d | None \<Rightarrow> JUndefined)"
proof -
  let ?k1 = "record_key outer item" and ?k2 = "record_key inner item"
  from description_table_records [OF assms(1)] assms(2) have
    none: "\<forall>k1. k1 \<notin> record_key outer ` set ds \<longrightarrow> map_of table k1 = None"
    and some: "\<forall>k1. k1 \<in> record_key outer ` set ds \<longrightarrow>
          (\<exists>idx. map_of table k1 = Some (JObj idx)
             \<and> (\<forall>k2. map_of idx k2
                    = map_option JObj (find (\<lambda>d. record_key outer d = k1 \<and> record_key inner d = k2) ds)))"
    by auto
  have a: "js_get (JObj item) outer = Inr (obj_get item outer)"
    and c: "js_get (JObj item) inner = Inr (obj_get item inner)"
    by (simp_all add: js_get_def)
  have k1: "to_string (obj_get item outer) = ?k1" and k2: "to_string (obj_get item inner) = ?k2"
    by (simp_all add: record_key_def)
  show ?thesis
  proof (cases "?k1 \<in> record_key outer ` set ds")
    case False
    with none have t: "map_of table ?k1 = None" by blast
    from False have "\<forall>d\<in>set ds. record_key outer d \<noteq> ?k1" by (metis imageI)
    then have "\<not> (\<exists>d. d \<in> set ds \<and> record_key outer d = ?k1 \<and> record_key inner d = ?k2)"
      by blast
    then have "matching outer inner ds item = None"
      unfolding matching_def find_None_iff .
    with t assms(3) show ?thesis
      by (simp add: table_lookup_def then_do_def a k1 obj_get_safe)
  next
    case True
    with some obtain idx where t: "map_of table ?k1 = Some (JObj idx)"
      and i: "\<forall>k2. map_of idx k2
                = map_option JObj (find (\<lambda>d. record_key outer d = ?k1 \<and> record_key inner d = k2) ds)"
      by blast
    from i have "map_of idx ?k2 = map_option JObj (matching outer inner ds item)"
      by (simp add: matching_def)
    then have "obj_get idx ?k2 = (case matching outer inner ds item of Some d \<Rightarrow> JObj d | None \<Rightarrow> JUndefined)"
      using assms(4) by (simp add: obj_get_safe split: option.splits)
    with t assms(3) show ?thesis
      by (simp add: table_lookup_def then_do_def a c k1 k2 obj_get_safe js_get_def)
  qed
qed

text \<open>
  When no outer or inner key of a description or of an item is an inherited name, both
  join sites return the items in their order, each merged with the first description of
  its two keys, or alone where no description has them.
\<close>

lemma withDescriptions_joins:
  assumes "\<forall>d\<in>set ds. record_key ''appid'' d \<notin> set object_prototype_names
                      \<and> record_key ''classid'' d \<notin> set object_prototype_names"
    and "description_table (JArr (map JObj ds)) ''appid'' ''classid'' = Inr table"
    and "\<forall>item\<in>set items. record_key ''appid'' item \<notin> set object_prototype_names
                      \<and> record_key ''classid'' item \<notin> set object_prototype_names"
  shows "withDescriptions builtin table (JArr (map JObj items))
    = Inr (JArr (map (joined ''appid'' ''classid'' ds) items))"
proof -
  have "\<forall>x\<in>set (map JObj items).
      then_do (table_lookup builtin table ''appid'' ''classid'' x)
        (\<lambda>found. Inr (JObj (spread x (if truthy found then found else JObj []))))
      = Inr ((\<lambda>x. case x of JObj item \<Rightarrow> joined ''appid'' ''classid'' ds item | _ \<Rightarrow> x) x)"
  proof
    fix x
    assume "x \<in> set (map JObj items)"
    then obtain item where x: "x = JObj item" and item: "item \<in> set items" by auto
    from assms(3) item have s: "record_key ''appid'' item \<notin> set object_prototype_names"
      "record_key ''classid'' item \<notin> set object_prototype_names" by auto
    show "then_do (table_lookup builtin table ''appid'' ''classid'' x)
        (\<lambda>found. Inr (JObj (spread x (if truthy found then found else JObj []))))
      = Inr ((\<lambda>x. case x of JObj item \<Rightarrow> joined ''appid'' ''classid'' ds item | _ \<Rightarrow> x) x)"
      unfolding x table_lookup_records [OF assms(1) assms(2) s]
      by (simp add: then_do_def joined_def spread_empty_object split: option.splits)
  qed
  from map_result_all [OF this] show ?thesis
    by (simp add: withDescriptions_def array_map_def then_do_def comp_def)
qed

lemma getInventory_joins:
  assumes "getJSON \<lparr>request_method = ''GET'',
                    uri = ''https://'' @ COMMUNITY_HOSTNAME @ ''/inventory/'' @ to_string steamid
                          @ ''/'' @ to_string appid @ ''/'' @ to_string contextid,
                    qs = define_all [] ([(''l'', JStr ''english''), (''count'', JNum 5000)] @ entries options)\<rparr> w
             = (Inr (JObj response), w')"
    and "map_of response ''assets'' = Some (JArr (map JObj assets))"
    and "map_of response ''descriptions'' = Some (JArr (map JObj ds))"
    and "\<forall>d\<in>set ds. record_key ''classid'' d \<notin> set object_prototype_names
                      \<and> record_key ''instanceid'' d \<notin> set object_prototype_names"
    and "\<forall>item\<in>set assets. record_key ''classid'' item \<notin> set object_prototype_names
                      \<and> record_key ''instanceid'' item \<notin> set object_prototype_names"
  shows "getInventory builtin getJSON appid contextid steamid options w
    = (Inr (JArr (map (joined ''classid'' ''instanceid'' ds) assets)), w')"
proof -
  from description_table_records [OF assms(4)] obtain table where
    t: "description_table (JArr (map JObj ds)) ''classid'' ''instanceid'' = Inr table" by blast
  have "\<forall>x\<in>set (map JObj assets).
      then_do (table_lookup builtin table ''classid'' ''instanceid'' x)
        (\<lambda>description. Inr (JObj (spread x description)))
      = Inr ((\<lambda>x. case x of JObj item \<Rightarrow> joined ''classid'' ''instanceid'' ds item | _ \<Rightarrow> x) x)"
  proof
    fix x
    assume "x \<in> set (map JObj assets)"
    then obtain item where x: "x = JObj item" and item: "item \<in> set assets" by auto
    from assms(5) item have s: "record_key ''classid'' item \<notin> set object_prototype_names"
      "record_key ''instanceid'' item \<notin> set object_prototype_names" by auto
    show "then_do (table_lookup builtin table ''classid'' ''instanceid'' x)
        (\<lambda>description. Inr (JObj (spread x description)))
      = Inr ((\<lambda>x. case x of JObj item \<Rightarrow> joined ''classid'' ''instanceid'' ds item | _ \<Rightarrow> x) x)"
      unfolding x table_lookup_records [OF assms(4) t s]
      by (simp add: then_do_def joined_def split: option.splits)
  qed
  from map_result_all [OF this]
  have m: "array_map (\<lambda>item. then_do (table_lookup builtin table ''classid'' ''instanceid'' item)
        (\<lambda>description. Inr (JObj (spread item description)))) (JArr (map JObj assets))
      = Inr (JArr (map (joined ''classid'' ''instanceid'' ds) assets))"
    by (simp add: array_map_def then_do_def comp_def)
  have a: "js_get (JObj response) ''assets'' = Inr (JArr (map JObj assets))"
    and d: "js_get (JObj response) ''descriptions'' = Inr (JArr (map JObj ds))"
    using assms(2,3) by (simp_all add: js_get_def obj_get_def)
  have step: "then_do (Inr x) f = f x" for x :: jsval and f :: "jsval \<Rightarrow> error + jsval"
    by (simp add: then_do_def)
  have step': "then_do (Inr x) f = f x" for x :: obj and f :: "obj \<Rightarrow> error + jsval"
    by (simp add: then_do_def)
  show ?thesis
    unfolding getInventory_def assms(1) by (simp add: a d t m step step')
qed

text \<open>
  C4. The join does not return for every pair of sequences: a description whose outer
  key is the name of a member of \<^verbatim>\<open>Object.prototype\<close> makes \<^verbatim>\<open>groupBy\<close> call
  \<^verbatim>\<open>push\<close> on the inherited value, and both join sites reject with a \<^verbatim>\<open>TypeError\<close>.
\<close>

theorem join_throws_on_inherited_key:
  "getInventory builtin
      (\<lambda>req w. (Inr (JObj [(''assets'', JArr [JObj [(''classid'', JStr ''1''), (''instanceid'', JStr ''0'')]]),
                           (''descriptions'', JArr [JObj [(''classid'', JStr ''constructor''),
                                                          (''instanceid'', JStr ''0'')]])]), w))
      (JStr ''440'') (JStr ''2'') (JStr ''76561198080179568'') (JObj []) w
     = (Inl TypeError, w)
   \<and> mergeTradeHistoryResponseDescriptions builtin
       (JObj [(''trades'', JArr [JObj [(''assets_given'', JArr [JObj [(''appid'', JNum 440), (''classid'', JStr ''1'')]])]]),
              (''descriptions'', JArr [JObj [(''appid'', JStr ''constructor''), (''classid'', JStr ''1'')]])])
     = Inl TypeError"
  by (simp add: getInventory_def mergeTradeHistoryResponseDescriptions_def then_do_def js_get_def
      description_table_def groupBy_def obj_get_def obj_set_def object_prototype_names_def)

section \<open>The record normalizer\<close>

lemma fixClassInfo_key_settled:
  assumes "truthy (obj_get ps k) \<longrightarrow> (\<exists>xs. obj_get ps k = JArr xs)"
  shows "fixClassInfo_key ps k = ps"
proof (cases "truthy (obj_get ps k)")
  case True
  with assms obtain xs where xs: "obj_get ps k = JArr xs" by blast
  then have "map_of ps k = Some (JArr xs)" by (rule obj_get_JArr)
  then show ?thesis
    by (simp add: fixClassInfo_key_def xs Object_values_JArr obj_set_same)
next
  case False
  then show ?thesis by (simp add: fixClassInfo_key_def)
qed

lemma fixClassInfo_key_settles:
  assumes "k \<noteq> ''__proto__''"
  shows "truthy (obj_get (fixClassInfo_key ps k) k) \<longrightarrow> (\<exists>xs. obj_get (fixClassInfo_key ps k) k = JArr xs)"
  using assms by (simp add: fixClassInfo_key_def obj_get_own map_of_obj_set)

lemma fixClassInfo_key_other: "k' \<noteq> k \<Longrightarrow> obj_get (fixClassInfo_key ps k) k' = obj_get ps k'"
  by (simp add: fixClassInfo_key_def obj_get_obj_set_other)

lemma foldl_fixClassInfo_key_settles:
  assumes "''__proto__'' \<notin> set ks"
  shows "\<forall>k\<in>set ks. truthy (obj_get (foldl fixClassInfo_key ps ks) k)
           \<longrightarrow> (\<exists>xs. obj_get (foldl fixClassInfo_key ps ks) k = JArr xs)"
  using assms
proof (induction ks rule: rev_induct)
  case Nil
  show ?case by simp
next
  case (snoc k ks)
  then have k: "k \<noteq> ''__proto__''" and IH: "\<forall>k'\<in>set ks. truthy (obj_get (foldl fixClassInfo_key ps ks) k')
           \<longrightarrow> (\<exists>xs. obj_get (foldl fixClassInfo_key ps ks) k' = JArr xs)"
    by auto
  show ?case
  proof
    fix k'
    assume "k' \<in> set (ks @ [k])"
    then consider "k' = k" | "k' \<noteq> k" "k' \<in> set ks" by auto
    then show "truthy (obj_get (foldl fixClassInfo_key ps (ks @ [k])) k')
           \<longrightarrow> (\<exists>xs. obj_get (foldl fixClassInfo_key ps (ks @ [k])) k' = JArr xs)"
    proof cases
      case 1
      with fixClassInfo_key_settles [OF k, of "foldl fixClassInfo_key ps ks"] show ?thesis by simp
    next
      case 2
      with IH show ?thesis by (simp add: fixClassInfo_key_other)
    qed
  qed
qed

lemma foldl_fixClassInfo_key_settled:
  assumes "\<forall>k\<in>set ks. truthy (obj_get ps k) \<longrightarrow> (\<exists>xs. obj_get ps k = JArr xs)"
  shows "foldl fixClassInfo_key ps ks = ps"
  using assms by (induction ks) (simp_all add: fixClassInfo_key_settled)

lemma map_of_fixClassInfo_key:
  assumes "k0 \<notin> set object_prototype_names"
  shows "map_of (fixClassInfo_key ps k0) k =
     (if k = k0 \<and> truthy (obj_get ps k0) then Some (JArr (Object_values (obj_get ps k0))) else map_of ps k)"
proof -
  from assms have "k0 \<noteq> ''__proto__''" by (auto simp add: object_prototype_names_def)
  then show ?thesis by (simp add: fixClassInfo_key_def map_of_obj_set)
qed

lemma foldl_fixClassInfo_key_frame:
  assumes "set ks \<inter> set object_prototype_names = {}"
  shows "(map_of ps k = None \<longrightarrow> map_of (foldl fixClassInfo_key ps ks) k = None)
       \<and> (map_of ps k = Some (JArr xs) \<longrightarrow> map_of (foldl fixClassInfo_key ps ks) k = Some (JArr xs))"
  using assms
proof (induction ks rule: rev_induct)
  case Nil
  show ?case by simp
next
  case (snoc k0 ks)
  then have k0: "k0 \<notin> set object_prototype_names" by auto
  let ?qs = "foldl fixClassInfo_key ps ks"
  from snoc have IH: "(map_of ps k = None \<longrightarrow> map_of ?qs k = None)
       \<and> (map_of ps k = Some (JArr xs) \<longrightarrow> map_of ?qs k = Some (JArr xs))" by auto
  have a: "map_of ?qs k0 = None \<Longrightarrow> \<not> truthy (obj_get ?qs k0)"
    using k0 by (simp add: obj_get_absent)
  have b: "map_of ?qs k0 = Some (JArr xs) \<Longrightarrow> Object_values (obj_get ?qs k0) = xs"
    by (simp add: obj_get_own Object_values_JArr)
  from IH a b show ?case
    by (auto simp add: map_of_fixClassInfo_key [OF k0])
qed

text \<open>
  C8. \<^verbatim>\<open>fixClassInfo\<close> is idempotent: applied to its own result it returns that result.
  A field the record does not have stays absent, and a field that is an array already
  keeps its value.
\<close>

theorem fixClassInfo_idempotent:
  assumes "fixClassInfo classinfo = Inr once"
  shows "fixClassInfo once = Inr once
    \<and> (\<forall>ps k. classinfo = JObj ps \<and> map_of ps k = None \<longrightarrow> (\<exists>qs. once = JObj qs \<and> map_of qs k = None))
    \<and> (\<forall>ps k xs. classinfo = JObj ps \<and> map_of ps k = Some (JArr xs)
          \<longrightarrow> (\<exists>qs. once = JObj qs \<and> map_of qs k = Some (JArr xs)))"
proof (cases classinfo)
  case (JObj ps)
  let ?ks = "[''actions'', ''market_actions'', ''tags'', ''descriptions'']"
  let ?qs = "foldl fixClassInfo_key ps ?ks"
  have ks: "''__proto__'' \<notin> set ?ks" by simp
  have ks': "set ?ks \<inter> set object_prototype_names = {}"
    by (simp add: object_prototype_names_def)
  from assms JObj have once: "once = JObj ?qs" by (simp add: fixClassInfo_def)
  have "foldl fixClassInfo_key ?qs ?ks = ?qs"
    by (rule foldl_fixClassInfo_key_settled) (rule foldl_fixClassInfo_key_settles [OF ks])
  then have 1: "fixClassInfo once = Inr once"
    unfolding once by (simp add: fixClassInfo_def)
  from foldl_fixClassInfo_key_frame [OF ks'] once JObj have 2:
    "\<forall>ps k. classinfo = JObj ps \<and> map_of ps k = None \<longrightarrow> (\<exists>qs. once = JObj qs \<and> map_of qs k = None)"
    by blast
  from foldl_fixClassInfo_key_frame [OF ks'] once JObj have 3:
    "\<forall>ps k xs. classinfo = JObj ps \<and> map_of ps k = Some (JArr xs)
          \<longrightarrow> (\<exists>qs. once = JObj qs \<and> map_of qs k = Some (JArr xs))"
    by blast
  from 1 2 3 show ?thesis by blast
qed (use assms in \<open>auto simp add: fixClassInfo_def\<close>)

theorem fixClassInfo_idempotent_witness:
  "fixClassInfo (JObj [(''classid'', JStr ''123''),
                       (''tags'', JObj [(''1'', JStr ''b''), (''0'', JStr ''a'')]),
                       (''descriptions'', JArr [JStr ''x'']),
                       (''actions'', JStr [])])
     = Inr (JObj [(''classid'', JStr ''123''),
                  (''tags'', JArr [JStr ''a'', JStr ''b'']),
                  (''descriptions'', JArr [JStr ''x'']),
                  (''actions'', JStr [])])
   \<and> fixClassInfo (JObj [(''classid'', JStr ''123''),
                  (''tags'', JArr [JStr ''a'', JStr ''b'']),
                  (''descriptions'', JArr [JStr ''x'']),
                  (''actions'', JStr [])])
     = Inr (JObj [(''classid'', JStr ''123''),
                  (''tags'', JArr [JStr ''a'', JStr ''b'']),
                  (''descriptions'', JArr [JStr ''x'']),
                  (''actions'', JStr [])])"
proof -
  let ?c = "JObj [(''classid'', JStr ''123''),
                       (''tags'', JObj [(''1'', JStr ''b''), (''0'', JStr ''a'')]),
                       (''descriptions'', JArr [JStr ''x'']),
                       (''actions'', JStr [])]"
  let ?once = "JObj [(''classid'', JStr ''123''),
                  (''tags'', JArr [JStr ''a'', JStr ''b'']),
                  (''descriptions'', JArr [JStr ''x'']),
                  (''actions'', JStr [])]"
  have h: "fixClassInfo ?c = Inr ?once"
    by (simp add: fixClassInfo_def fixClassInfo_key_def obj_get_def obj_set_def
        object_prototype_names_def Object_values_def entries_def own_entries_def
        array_index_def is_digit_def int_of_digits_def digit_value_def)
  from fixClassInfo_idempotent [OF h] h show ?thesis by blast
qed

section \<open>The success flag of the classinfo lookup\<close>

lemma js_delete_success:
  assumes "js_delete v ''success'' = Inr v'"
  shows "''success'' \<notin> fst ` set (entries v')"
proof (cases v)
  case (JObj ps)
  with assms have "v' = JObj (AList.delete ''success'' ps)" by (simp add: js_delete_def)
  then show ?thesis
    by (simp add: entries_def set_own_entries delete_notin_dom)
next
  case (JArr xs)
  with assms have "v' = JArr xs" by (simp add: js_delete_def)
  then show ?thesis by (simp add: entries_def success_notin_indices)
next
  case (JStr s)
  with assms have "v' = JStr s" by (simp add: js_delete_def)
  then show ?thesis by (simp add: entries_def success_notin_indices)
qed (use assms in \<open>auto simp add: js_delete_def entries_def\<close>)

lemma classinfo_reduce_None:
  assumes "classinfo_reduce acc es = Inr c" and "map_of acc s = None" and "s \<notin> fst ` set es"
  shows "map_of c s = None"
  using assms
proof (induction es arbitrary: acc)
  case Nil
  then show ?case by simp
next
  case (Cons p es)
  from Cons.prems(1) obtain fixed where f: "fixClassInfo (snd p) = Inr fixed"
    and r: "classinfo_reduce (obj_set acc (fst p) fixed) es = Inr c"
    by (auto split: sum.splits)
  from Cons.prems(3) have "fst p \<noteq> s" and es: "s \<notin> fst ` set es" by auto
  with Cons.prems(2) have "map_of (obj_set acc (fst p) fixed) s = None"
    by (simp add: map_of_obj_set_None)
  with r es show ?case by (intro Cons.IH)
qed

lemma Object_assign_None:
  assumes "map_of target s = None" and "s \<notin> fst ` set (entries source)"
  shows "map_of (Object_assign target source) s = None"
proof -
  have "map_of (foldl (\<lambda>ob p. obj_set ob (fst p) (snd p)) target es) s = None"
    if "map_of target s = None" "s \<notin> fst ` set es" for es
    using that by (induction es arbitrary: target) (auto simp add: map_of_obj_set_None)
  with assms show ?thesis by (simp add: Object_assign_def)
qed

lemma foldl_Object_assign_None:
  assumes "map_of target s = None" and "\<forall>r\<in>set responses. s \<notin> fst ` set (entries r)"
  shows "map_of (foldl Object_assign target responses) s = None"
  using assms by (induction responses arbitrary: target) (simp_all add: Object_assign_None)

lemma classinfo_task_resolved:
  assumes "classinfo_task getJSON apiKey appid options chunk0 rs w = (Inr v, w')"
  shows "''success'' \<notin> fst ` set (entries v) \<and> (\<forall>xs. v \<noteq> JArr xs)"
proof -
  obtain r w1 where g: "getAssetClassInfoRequest getJSON apiKey appid options chunk0 w = (r, w1)"
    by (cases "getAssetClassInfoRequest getJSON apiKey appid options chunk0 w")
  with assms obtain response where r: "r = Inr response"
    by (cases r) (simp_all add: classinfo_task_def)
  from assms g r obtain result result1 c where
    "js_get response ''result'' = Inr result" and d: "js_delete result ''success'' = Inr result1"
    and c: "classinfo_reduce [] (entries result1) = Inr c" and v: "v = JObj c"
    by (auto simp add: classinfo_task_def then_do_def split: sum.splits)
  from d have "''success'' \<notin> fst ` set (entries result1)" by (rule js_delete_success)
  with c have "map_of c ''success'' = None"
    by (intro classinfo_reduce_None [of "[]" "entries result1" c]) simp_all
  then have "''success'' \<notin> fst ` set c" by (simp add: map_of_eq_None_iff)
  with v show ?thesis by (simp add: entries_def set_own_entries)
qed

lemma delete_success_set_success:
  "then_do (js_get (set_success v response) ''result'') (\<lambda>result. js_delete result ''success'')
     = then_do (js_get response ''result'') (\<lambda>result. js_delete result ''success'')"
proof (cases response)
  case (JObj ps)
  show ?thesis
  proof (cases "map_of ps ''result''")
    case None
    with JObj show ?thesis by (simp add: set_success_def)
  next
    case (Some result)
    show ?thesis
    proof (cases result)
      case r: (JObj rs)
      with JObj Some show ?thesis
        by (simp add: set_success_def then_do_def js_get_def obj_get_def update_conv' js_delete_def
            delete_map_entry)
    qed (use JObj Some in \<open>simp_all add: set_success_def\<close>)
  qed
qed (simp_all add: set_success_def)

lemma classinfo_task_success_changed:
  "classinfo_task (success_changed v getJSON) apiKey appid options chunk0
     = classinfo_task getJSON apiKey appid options chunk0"
proof (intro ext)
  fix rs w
  have assoc: "then_do (js_get response ''result'') (\<lambda>result. then_do (js_delete result ''success'') F)
      = then_do (then_do (js_get response ''result'') (\<lambda>result. js_delete result ''success'')) F"
    for response and F :: "jsval \<Rightarrow> error + jsval"
    by (simp add: then_do_def split: sum.splits)
  show "classinfo_task (success_changed v getJSON) apiKey appid options chunk0 rs w
     = classinfo_task getJSON apiKey appid options chunk0 rs w"
    unfolding classinfo_task_def getAssetClassInfoRequest_def success_changed_def assoc
    by (simp add: delete_success_set_success split: prod.splits sum.splits)
qed

text \<open>
  C9. The container that \<^verbatim>\<open>getAssetClassInfos\<close> resolves with never has the key
  \<^verbatim>\<open>success\<close>, and the value of the flag is never looked at: a collaborator whose
  answers differ in the values of the flags only gives the same outcome.
\<close>

theorem getAssetClassInfos_drops_success:
  "(\<forall>merged w'. getAssetClassInfos getJSON apiKey appid classids options w = (Inr merged, w')
       \<longrightarrow> ''success'' \<notin> fst ` set merged)
   \<and> getAssetClassInfos (success_changed v getJSON) apiKey appid classids options w
     = getAssetClassInfos getJSON apiKey appid classids options w"
proof (intro conjI allI impI)
  fix merged w'
  assume a: "getAssetClassInfos getJSON apiKey appid classids options w = (Inr merged, w')"
  then obtain ids chunks responses where
    "uniq js_get classids None = Inr ids" "chunk 20 ids = Inr chunks"
    and p: "promiseSeries (map (classinfo_task getJSON apiKey appid options) chunks) w = (Inr responses, w')"
    and m: "merged = foldl Object_assign [] responses"
    by (auto simp add: getAssetClassInfos_def split: sum.splits prod.splits)
  have "\<forall>r\<in>set responses. ''success'' \<notin> fst ` set (entries r)"
    using p by (rule promiseSeries_resolved_all) (auto dest: classinfo_task_resolved)
  then have "map_of merged ''success'' = None"
    unfolding m by (intro foldl_Object_assign_None) simp_all
  then show "''success'' \<notin> fst ` set merged" by (simp add: map_of_eq_None_iff)
next
  show "getAssetClassInfos (success_changed v getJSON) apiKey appid classids options w
     = getAssetClassInfos getJSON apiKey appid classids options w"
    unfolding getAssetClassInfos_def classinfo_task_success_changed by (rule refl)
qed

theorem getAssetClassInfos_drops_success_witness:
  "getAssetClassInfos
      (\<lambda>req w. (Inr (JObj [(''result'',
          JObj [(''success'', JBool True),
                (''11'', JObj [(''classid'', JStr ''11''), (''tags'', JObj [(''0'', JStr ''t'')])]),
                (''5'', JObj [(''classid'', JStr ''5'')])])]), w @ [map_of (qs req) ''class_count'']))
      (JStr ''KEY'') (JStr ''440'') [JStr ''11'', JStr ''5'', JStr ''11''] (JObj []) []
     = (Inr [(''5'', JObj [(''classid'', JStr ''5'')]),
             (''11'', JObj [(''classid'', JStr ''11''), (''tags'', JArr [JStr ''t''])])],
        [Some (JNum 2)])
   \<and> ''success'' \<notin> fst ` set [(''5'', JObj [(''classid'', JStr ''5'')]),
             (''11'', JObj [(''classid'', JStr ''11''), (''tags'', JArr [JStr ''t''])])]
   \<and> getAssetClassInfos
      (success_changed (\<lambda>req w. JBool False) (\<lambda>req w. (Inr (JObj [(''result'',
          JObj [(''success'', JBool True),
                (''11'', JObj [(''classid'', JStr ''11''), (''tags'', JObj [(''0'', JStr ''t'')])]),
                (''5'', JObj [(''classid'', JStr ''5'')])])]), w @ [map_of (qs req) ''class_count''])))
      (JStr ''KEY'') (JStr ''440'') [JStr ''11'', JStr ''5'', JStr ''11''] (JObj []) []
     = (Inr [(''5'', JObj [(''classid'', JStr ''5'')]),
             (''11'', JObj [(''classid'', JStr ''11''), (''tags'', JArr [JStr ''t''])])],
        [Some (JNum 2)])"
proof -
  let ?g = "\<lambda>req w. (Inr (JObj [(''result'',
          JObj [(''success'', JBool True),
                (''11'', JObj [(''classid'', JStr ''11''), (''tags'', JObj [(''0'', JStr ''t'')])]),
                (''5'', JObj [(''classid'', JStr ''5'')])])]) :: error + jsval, w @ [map_of (qs req) ''class_count''])"
  let ?merged = "[(''5'', JObj [(''classid'', JStr ''5'')]),
             (''11'', JObj [(''classid'', JStr ''11''), (''tags'', JArr [JStr ''t''])])]"
  have e: "getAssetClassInfos ?g (JStr ''KEY'') (JStr ''440'') [JStr ''11'', JStr ''5'', JStr ''11''] (JObj []) []
     = (Inr ?merged, [Some (JNum 2)])"
    by code_simp
  from getAssetClassInfos_drops_success [of ?g "JStr ''KEY''" "JStr ''440''"
      "[JStr ''11'', JStr ''5'', JStr ''11'']" "JObj []" "[]" "\<lambda>req w. JBool False"] e
  show ?thesis by simp
qed

section \<open>The options of getTradeHistory\<close>

lemma getTradeHistory_store:
  "fst (snd (getTradeHistory builtin getJSON apiKey (Some a) h w))
     = h @ [AList.delete ''combine_descriptions'' (define_all [] (own_entries (h ! a)))]"
  by (simp add: getTradeHistory_def alloc_def Let_def nth_append split: prod.splits)

lemma getTradeHistory_request:
  assumes "\<And>req w. map_of (qs req) ''combine_descriptions'' = None \<Longrightarrow> getJSON' req w = getJSON req w"
  shows "getTradeHistory builtin getJSON' apiKey options h w = getTradeHistory builtin getJSON apiKey options h w"
proof -
  have "map_of (define_all [(''key'', apiKey)] (own_entries (AList.delete ''combine_descriptions'' ps)))
          ''combine_descriptions'' = None" for ps
    using delete_notin_dom [of "''combine_descriptions''" ps] by (simp add: map_of_define_all_None set_own_entries)
  then have "getJSON' \<lparr>request_method = m, uri = u,
        qs = define_all [(''key'', apiKey)] (own_entries (AList.delete ''combine_descriptions'' ps))\<rparr> w
      = getJSON \<lparr>request_method = m, uri = u,
        qs = define_all [(''key'', apiKey)] (own_entries (AList.delete ''combine_descriptions'' ps))\<rparr> w" for ps m u
    by (intro assms) simp
  then show ?thesis
    by (simp add: getTradeHistory_def alloc_def Let_def nth_append split: prod.splits option.splits)
qed

text \<open>
  C10. \<^verbatim>\<open>getTradeHistory\<close> does not change the options object of the caller: after the
  call the object at the caller's address is what it was, \<^verbatim>\<open>combine_descriptions\<close>
  included, and so is every object that existed before. The flag is deleted from the
  copy only: the request that is issued does not carry it, so a collaborator that
  answers otherwise to requests with the flag makes no difference.
\<close>

theorem getTradeHistory_keeps_options:
  assumes "a < length h"
  shows "fst (snd (getTradeHistory builtin getJSON apiKey (Some a) h w)) ! a = h ! a
    \<and> take (length h) (fst (snd (getTradeHistory builtin getJSON apiKey (Some a) h w))) = h
    \<and> (\<forall>getJSON'. (\<forall>req w. map_of (qs req) ''combine_descriptions'' = None \<longrightarrow> getJSON' req w = getJSON req w)
          \<longrightarrow> getTradeHistory builtin getJSON' apiKey (Some a) h w
              = getTradeHistory builtin getJSON apiKey (Some a) h w)"
proof (intro conjI allI impI)
  show "fst (snd (getTradeHistory builtin getJSON apiKey (Some a) h w)) ! a = h ! a"
    using assms by (simp add: getTradeHistory_store nth_append)
  show "take (length h) (fst (snd (getTradeHistory builtin getJSON apiKey (Some a) h w))) = h"
    by (simp add: getTradeHistory_store)
  show "getTradeHistory builtin getJSON' apiKey (Some a) h w = getTradeHistory builtin getJSON apiKey (Some a) h w"
    if "\<forall>req w. map_of (qs req) ''combine_descriptions'' = None \<longrightarrow> getJSON' req w = getJSON req w"
    for getJSON'
    using that by (intro getTradeHistory_request) blast
qed

theorem getTradeHistory_keeps_options_witness:
  "(0::nat) < length [[(''max_trades'', JNum 10), (''combine_descriptions'', JBool True)]]
   \<and> getTradeHistory (\<lambda>b k. Inr JUndefined)
        (\<lambda>req w. (Inr (JObj [(''response'',
             JObj [(''trades'', JArr [JObj [(''assets_given'', JArr [JObj [(''appid'', JNum 440), (''classid'', JStr ''A'')]])]]),
                   (''descriptions'', JArr [JObj [(''appid'', JNum 440), (''classid'', JStr ''A''), (''name'', JStr ''Widget'')]])])]), w @ [qs req]))
        (JStr ''KEY'') (Some 0) [[(''max_trades'', JNum 10), (''combine_descriptions'', JBool True)]] []
     = (Inr (JObj [(''trades'', JArr [JObj [(''assets_given'',
              JArr [JObj [(''appid'', JNum 440), (''classid'', JStr ''A''), (''name'', JStr ''Widget'')]])]])]),
        [[(''max_trades'', JNum 10), (''combine_descriptions'', JBool True)], [(''max_trades'', JNum 10)]],
        [[(''key'', JStr ''KEY''), (''max_trades'', JNum 10)]])
   \<and> fst (snd (getTradeHistory (\<lambda>b k. Inr JUndefined)
        (\<lambda>req w. (Inr (JObj [(''response'',
             JObj [(''trades'', JArr [JObj [(''assets_given'', JArr [JObj [(''appid'', JNum 440), (''classid'', JStr ''A'')]])]]),
                   (''descriptions'', JArr [JObj [(''appid'', JNum 440), (''classid'', JStr ''A''), (''name'', JStr ''Widget'')]])])]), w @ [qs req]))
        (JStr ''KEY'') (Some 0) [[(''max_trades'', JNum 10), (''combine_descriptions'', JBool True)]] [])) ! 0
     = [(''max_trades'', JNum 10), (''combine_descriptions'', JBool True)]"
proof -
  let ?h = "[[(''max_trades'', JNum 10), (''combine_descriptions'', JBool True)]]"
  let ?g = "\<lambda>req w. (Inr (JObj [(''response'',
             JObj [(''trades'', JArr [JObj [(''assets_given'', JArr [JObj [(''appid'', JNum 440), (''classid'', JStr ''A'')]])]]),
                   (''descriptions'', JArr [JObj [(''appid'', JNum 440), (''classid'', JStr ''A''), (''name'', JStr ''Widget'')]])])]) :: error + jsval, w @ [qs req])"
  have h: "(0::nat) < length ?h" by simp
  have e: "getTradeHistory (\<lambda>b k. Inr JUndefined) ?g (JStr ''KEY'') (Some 0) ?h []
     = (Inr (JObj [(''trades'', JArr [JObj [(''assets_given'',
              JArr [JObj [(''appid'', JNum 440), (''classid'', JStr ''A''), (''name'', JStr ''Widget'')]])]])]),
        [[(''max_trades'', JNum 10), (''combine_descriptions'', JBool True)], [(''max_trades'', JNum 10)]],
        [[(''key'', JStr ''KEY''), (''max_trades'', JNum 10)]])"
    by code_simp
  from getTradeHistory_keeps_options [OF h, of "\<lambda>b k. Inr JUndefined" ?g "JStr ''KEY''" "[]"] h e
  show ?thesis by simp
qed

end
